theory Spec2Isabelle
  imports Main "HOL-Library.Word"
begin

unbundle bit_operations_syntax

section \<open>Data model\<close>

text \<open>
  The repository holds three copies of the same calculator.  All of them represent an
  IPv4 address and its mask as two \<open>uint32\<close> values.  Go's \<open>uint32\<close> arithmetic
  wraps modulo \<open>2 ^ 32\<close>, which is exactly the arithmetic of \<open>32 word\<close>.
\<close>

type_synonym u32 = "32 word"
type_synonym u8 = "8 word"

text \<open>\<open>TwoFiveFive = 255.255.255.255\<close>\<close>

definition TwoFiveFive :: u32 where
  "TwoFiveFive = 4294967295"

text \<open>The \<open>Addr\<close>/\<open>Mask\<close> variant of \<open>ipcalc.go\<close>.\<close>

record Ipv4 =
  Addr :: u32
  Mask :: u32

definition Network :: "Ipv4 \<Rightarrow> u32" where
  "Network i = Mask i AND Addr i"

definition Broadcast :: "Ipv4 \<Rightarrow> u32" where
  "Broadcast i = NOT (Mask i) OR Addr i"

definition IsIn :: "Ipv4 \<Rightarrow> Ipv4 \<Rightarrow> bool" where
  "IsIn i n = (if Addr i \<ge> Addr n \<and> Mask i \<le> Mask n then True else False)"

text \<open>The \<open>Host\<close>/\<open>Mask\<close> variant of \<open>ipcalc.go\<close>: derived addresses by arithmetic.\<close>

record Ipv4_hm =
  Host :: u32
  HMask :: u32

definition Network_hm :: "Ipv4_hm \<Rightarrow> u32" where
  "Network_hm i = HMask i + Host i - (HMask i OR Host i)"

definition Broadcast_hm :: "Ipv4_hm \<Rightarrow> u32" where
  "Broadcast_hm i = TwoFiveFive - HMask i + Network_hm i"

definition IsInNet :: "Ipv4_hm \<Rightarrow> Ipv4_hm \<Rightarrow> bool" where
  "IsInNet n1 n2 =
     (if Host n1 \<ge> Host n2 \<and> Broadcast_hm n1 \<le> Broadcast_hm n2 then True else False)"

text \<open>
  The variant of \<open>main.go\<close> caches the derived addresses in two more fields, which
  \<open>setNetwork\<close> and \<open>setBroadcast\<close> overwrite in place; the model returns the
  updated record.
\<close>

record Ipv4_c =
  CHost :: u32
  CMask :: u32
  CNetwork :: u32
  CBroadcast :: u32

definition setNetwork :: "Ipv4_c \<Rightarrow> Ipv4_c" where
  "setNetwork i = i\<lparr>CNetwork := CMask i + CHost i - (CMask i OR CHost i)\<rparr>"

definition setBroadcast :: "Ipv4_c \<Rightarrow> Ipv4_c" where
  "setBroadcast i = i\<lparr>CBroadcast := TwoFiveFive - CMask i + CNetwork i\<rparr>"

section \<open>Derived addresses: arithmetic against bitwise form\<close>

lemma TwoFiveFive_minus_one: "TwoFiveFive = - 1"
  by (simp add: TwoFiveFive_def)

lemma arith_network: "(m::u32) + h - (m OR h) = h AND m"
proof -
  have e: "(m AND h) + (m OR h) = m + h"
    by (rule word_plus_and_or)
  have "m + h - (m OR h) = (m AND h) + (m OR h) - (m OR h)"
    by (simp only: e)
  also have "\<dots> = m AND h"
    by (simp only: add_diff_cancel_right')
  finally show ?thesis
    by (simp only: and.commute)
qed

lemma arith_broadcast: "TwoFiveFive - (m::u32) + (h AND m) = h OR NOT m"
proof -
  have "TwoFiveFive - m = NOT m"
    by (simp add: TwoFiveFive_minus_one not_eq_complement)
  moreover have "NOT m + (h AND m) = NOT m OR (h AND m)"
    by (rule disjunctive_add_eq_or) (simp add: and.left_commute)
  moreover have "NOT m OR (h AND m) = h OR NOT m"
    by (rule bit_word_eqI) (auto simp add: bit_simps)
  ultimately show ?thesis by simp
qed

text \<open>
  Claim C7.  For every address \<open>a\<close> and mask \<open>m\<close>, the arithmetic forms of the
  \<open>Host\<close>/\<open>Mask\<close> variant and of \<open>main.go\<close> equal the bitwise reference
  \<open>a AND m\<close> and \<open>a OR NOT m\<close> (arithmetic modulo \<open>2 ^ 32\<close>), so all variants
  compute the network and broadcast address that the \<open>Addr\<close>/\<open>Mask\<close> variant computes
  on the same input.
\<close>

theorem arithmetic_addresses_refine_bitwise:
  "Network_hm \<lparr>Host = a, HMask = m\<rparr> = a AND m
   \<and> Broadcast_hm \<lparr>Host = a, HMask = m\<rparr> = a OR NOT m
   \<and> Network_hm \<lparr>Host = a, HMask = m\<rparr> = Network \<lparr>Addr = a, Mask = m\<rparr>
   \<and> Broadcast_hm \<lparr>Host = a, HMask = m\<rparr> = Broadcast \<lparr>Addr = a, Mask = m\<rparr>
   \<and> CNetwork (setBroadcast (setNetwork \<lparr>CHost = a, CMask = m, CNetwork = n, CBroadcast = b\<rparr>))
       = Network \<lparr>Addr = a, Mask = m\<rparr>
   \<and> CBroadcast (setBroadcast (setNetwork \<lparr>CHost = a, CMask = m, CNetwork = n, CBroadcast = b\<rparr>))
       = Broadcast \<lparr>Addr = a, Mask = m\<rparr>"
proof -
  have n: "m + a - (m OR a) = a AND m"
    by (rule arith_network)
  have b: "TwoFiveFive - m + (a AND m) = a OR NOT m"
    by (rule arith_broadcast)
  have c1: "m AND a = a AND m" and c2: "NOT m OR a = a OR NOT m"
    by (simp_all only: and.commute or.commute)
  show ?thesis
    by (simp only: Network_hm_def Broadcast_hm_def Network_def Broadcast_def setNetwork_def
        setBroadcast_def Ipv4_hm.simps Ipv4.simps Ipv4_c.simps n b c1 c2 simp_thms)
qed


section \<open>Containment\<close>

lemma IsInNet_iff:
  "IsInNet n1 n2 \<longleftrightarrow>
     Host n2 \<le> Host n1 \<and> (Host n1 OR NOT (HMask n1)) \<le> (Host n2 OR NOT (HMask n2))"
  by (simp only: IsInNet_def Broadcast_hm_def Network_hm_def arith_network arith_broadcast
      if_bool_eq_conj simp_thms)

text \<open>
  Claim C3.  The containment test is meant to hold exactly when \<open>a.address \<ge> b.address\<close>
  and \<open>a.broadcast() \<le> b.broadcast()\<close>.  \<open>IsInNet\<close> does that (lemma \<open>IsInNet_iff\<close>);
  \<open>IsIn\<close> compares the masks instead.  For \<open>10.244.170.8/28\<close> and \<open>10.244.170.0/24\<close>,
  the pair of the repository's own containment test, both conditions of the claim hold and
  \<open>IsIn\<close> answers false.
\<close>

theorem IsIn_rejects_contained_range:
  "IsIn \<lparr>Addr = 183806472, Mask = 4294967280\<rparr> \<lparr>Addr = 183806464, Mask = 4294967040\<rparr> = False
   \<and> Addr \<lparr>Addr = 183806464, Mask = 4294967040\<rparr> \<le> Addr \<lparr>Addr = 183806472, Mask = 4294967280\<rparr>
   \<and> Broadcast \<lparr>Addr = 183806472, Mask = 4294967280\<rparr>
       \<le> Broadcast \<lparr>Addr = 183806464, Mask = 4294967040\<rparr>
   \<and> IsInNet \<lparr>Host = 183806472, HMask = 4294967280\<rparr> \<lparr>Host = 183806464, HMask = 4294967040\<rparr>
       = True"
  by (simp add: IsIn_def Broadcast_def IsInNet_iff)

section \<open>Summarising a range: \<open>Subnet\<close>\<close>

datatype error =
  ArgumentOrderBackwards
  | InternalError
  | DiscontiguousMask
  | CidrConversionFailed
  | MustContainThreeDots
  | ContainsNonNumbers
  | InvalidCidrPrefix
  | IndexOutOfRange

text \<open>
  The first loop of \<open>Subnet\<close>: the smallest \<open>bits\<close> in \<open>0..32\<close> with
  \<open>sharedBits>>bits == 0\<close> gives the candidate mask
  \<open>TwoFiveFive - (uint32(1)<<bits - 1)\<close>.  Go shifts a \<open>uint32\<close> by 32 or more to 0, as
  \<open>push_bit\<close> and \<open>drop_bit\<close> do on \<open>32 word\<close>.  A loop that ran out would leave the
  mask at its zero value.
\<close>

function find_mask :: "u32 \<Rightarrow> nat \<Rightarrow> u32" where
  "find_mask sharedBits bits =
     (if bits \<le> 32 then
        (if drop_bit bits sharedBits = 0 then TwoFiveFive - (push_bit bits 1 - 1)
         else find_mask sharedBits (bits + 1))
      else 0)"
  by pat_completeness auto
termination
  by (relation "measure (\<lambda>(s, bits). 33 - bits)") auto

declare find_mask.simps [simp del]

text \<open>The mask update of the second loop (and of \<open>maskToString\<close>):
  \<open>uint32(1)<<31 + lo.Mask>>1\<close>, where Go's shifts bind tighter than \<open>+\<close>.\<close>

definition mask_step :: "u32 \<Rightarrow> u32" where
  "mask_step m = push_bit 31 1 + drop_bit 1 m"

lemma bit_top: "bit (push_bit 31 (1::u32)) n \<longleftrightarrow> n = 31"
  by (simp only: bit_push_bit_iff bit_1_iff) auto

lemma mask_step_or: "mask_step m = push_bit 31 1 OR drop_bit 1 m"
  unfolding mask_step_def
proof (rule disjunctive_add)
  fix n show "\<not> bit (push_bit 31 (1::u32)) n \<or> \<not> bit (drop_bit 1 m) n"
    unfolding bit_top by (auto simp add: bit_drop_bit_eq dest: bit_imp_le_length)
qed

lemma not_mask_step: "NOT (mask_step m) = drop_bit 1 (NOT m)"
  unfolding mask_step_or
proof (rule bit_word_eqI)
  fix n assume "n < LENGTH(32)"
  then show "bit (NOT (push_bit 31 1 OR drop_bit 1 m)) n = bit (drop_bit 1 (NOT m)) n"
    unfolding bit_not_iff bit_or_iff bit_top
    by (auto simp add: bit_drop_bit_eq bit_not_iff dest: bit_imp_le_length)
qed

lemma unat_not_mask_step: "unat (NOT (mask_step m)) = unat (NOT m) div 2"
  by (simp add: not_mask_step drop_bit_eq_div unat_div)

text \<open>
  The second loop of \<open>Subnet\<close>, \<open>for { if lo.Network() == lo.Addr { break }; ... }\<close>, has no
  bound in the source.  It is total all the same: each update halves \<open>NOT mask\<close>, and
  the loop is left at the latest with the mask \<open>0xFFFFFFFF\<close>.
\<close>

function align :: "Ipv4 \<Rightarrow> Ipv4" where
  "align lo = (if Network lo = Addr lo then lo
               else align (lo\<lparr>Mask := mask_step (Mask lo)\<rparr>))"
  by pat_completeness auto
termination
proof (relation "measure (\<lambda>lo. unat (NOT (Mask lo)))")
  show "wf (measure (\<lambda>lo. unat (NOT (Mask lo))))" by simp
next
  fix lo :: Ipv4
  assume "Network lo \<noteq> Addr lo"
  then have "Mask lo \<noteq> - 1" by (auto simp add: Network_def)
  then have "NOT (Mask lo) \<noteq> 0"
    by (metis bit.compl_zero bit.double_compl)
  then have "0 < unat (NOT (Mask lo))"
    by (simp add: unat_gt_0)
  then show "(lo\<lparr>Mask := mask_step (Mask lo)\<rparr>, lo) \<in> measure (\<lambda>lo. unat (NOT (Mask lo)))"
    by (simp add: unat_not_mask_step)
qed

declare align.simps [simp del]

lemma align_stop: "Network lo = Addr lo \<Longrightarrow> align lo = lo"
  by (subst align.simps) simp

lemma align_step:
  "Network lo \<noteq> Addr lo \<Longrightarrow> align lo = align (lo\<lparr>Mask := mask_step (Mask lo)\<rparr>)"
  by (subst align.simps) simp

lemma align_Addr: "Addr (align lo) = Addr lo"
proof (induction lo rule: align.induct)
  case (1 lo)
  show ?case
  proof (cases "Network lo = Addr lo")
    case True
    then show ?thesis by (simp only: align_stop)
  next
    case False
    from 1 [OF False] show ?thesis by (simp add: align_step [OF False])
  qed
qed

lemma align_aligned: "Network (align lo) = Addr (align lo)"
proof (induction lo rule: align.induct)
  case (1 lo)
  show ?case
  proof (cases "Network lo = Addr lo")
    case True
    then show ?thesis by (simp only: align_stop)
  next
    case False
    from 1 [OF False] show ?thesis by (simp only: align_step [OF False])
  qed
qed

lemma Addr_le_Broadcast: "Addr lo \<le> Broadcast lo"
  by (simp add: Broadcast_def le_word_or1)

lemma unat_succ_below:
  assumes "(b::u32) < stop"
  shows "unat (b + 1) = Suc (unat b)"
proof -
  from assms have "unat b < unat stop" by (simp add: word_less_nat_alt)
  moreover have "unat stop < 2 ^ 32" using unsigned_less [of stop] by simp
  ultimately have "unat b + unat (1::u32) < 2 ^ LENGTH(32)" by simp
  then have "unat (b + 1) = unat b + unat (1::u32)" by (simp only: unat_add_lem)
  then show ?thesis by simp
qed

lemma Subnet_step_decreases:
  assumes "Broadcast lo < stop"
  shows "unat stop - unat (Broadcast lo + 1) < unat stop - unat (Addr lo)"
proof -
  have "unat (Addr lo) \<le> unat (Broadcast lo)"
    using Addr_le_Broadcast [of lo] by (simp add: word_le_nat_alt)
  moreover have "unat (Broadcast lo) < unat stop"
    using assms by (simp add: word_less_nat_alt)
  moreover have "unat (Broadcast lo + 1) = Suc (unat (Broadcast lo))"
    using assms by (rule unat_succ_below)
  ultimately show ?thesis by simp
qed

text \<open>
  \<open>Subnet\<close> returns a slice and an error; on an error the slice is what had been built
  at that level.  The self-recursion is on \<open>(lo.Broadcast() + 1, stop)\<close>, reached only when
  \<open>lo.Broadcast() < stop\<close>, so the distance to \<open>stop\<close> shrinks.
\<close>

function Subnet :: "u32 \<Rightarrow> u32 \<Rightarrow> Ipv4 list \<times> error option" where
  "Subnet start stop =
     (if start = stop then ([\<lparr>Addr = start, Mask = TwoFiveFive\<rparr>], None)
      else if start > stop then ([], Some ArgumentOrderBackwards)
      else
        let lo = align \<lparr>Addr = start, Mask = find_mask (start XOR stop) 0\<rparr> in
        if Broadcast lo = stop then ([lo], None)
        else if Broadcast lo > stop then ([lo], Some InternalError)
        else
          (case Subnet (Broadcast lo + 1) stop of
             (next, Some err) \<Rightarrow> ([lo], Some err)
           | (next, None) \<Rightarrow> ([lo] @ next, None)))"
  by pat_completeness auto
termination
proof (relation "measure (\<lambda>(start, stop). unat stop - unat start)")
  show "wf (measure (\<lambda>(start, stop). unat stop - unat start))" by simp
next
  fix start stop :: u32 and lo :: Ipv4
  assume lo: "lo = align \<lparr>Addr = start, Mask = find_mask (start XOR stop) 0\<rparr>"
    and "Broadcast lo \<noteq> stop" "\<not> stop < Broadcast lo"
  then have "Broadcast lo < stop" by simp
  from Subnet_step_decreases [OF this] lo
  show "((Broadcast lo + 1, stop), (start, stop)) \<in> measure (\<lambda>(start, stop). unat stop - unat start)"
    by (simp add: align_Addr)
qed

declare Subnet.simps [simp del]


subsection \<open>The overshoot branch\<close>

text \<open>
  Claim C1.  \<open>Subnet\<close> is documented to summarise every range \<open>start \<le> stop\<close> into the
  fewest aligned blocks.  On \<open>Subnet(0, 2)\<close> the candidate mask is \<open>/30\<close>, the address 0 is
  aligned to it, and the block \<open>0.0.0.0/30\<close> ends at 3, beyond \<open>stop\<close>: the call returns
  the "Internal Error" and a block that is not inside \<open>[0, 2]\<close>, where the claim promises
  the two blocks \<open>0.0.0.0/31\<close> and \<open>0.0.0.2/32\<close>.
\<close>

theorem Subnet_0_2_fails:
  "Subnet 0 2 = ([\<lparr>Addr = 0, Mask = 0xFFFFFFFC\<rparr>], Some InternalError)
   \<and> Broadcast \<lparr>Addr = 0, Mask = 0xFFFFFFFC\<rparr> = 3"
  by (simp add: Subnet.simps find_mask.simps align.simps Network_def Broadcast_def
      TwoFiveFive_def mask_step_def)

text \<open>
  Claim C2.  The branch \<open>lo.Broadcast() > stop\<close>, which returns the "Internal Error", is
  meant to be dead.  It is reached at the top level by \<open>Subnet(4, 6)\<close> and at the third
  level of recursion by \<open>Subnet(1, 6)\<close>, which hands the error on to its caller.
\<close>

theorem Subnet_overshoot_reached:
  "Subnet 4 6 = ([\<lparr>Addr = 4, Mask = 0xFFFFFFFC\<rparr>], Some InternalError)
   \<and> Subnet 1 6 = ([\<lparr>Addr = 1, Mask = 0xFFFFFFFF\<rparr>], Some InternalError)"
  by (simp add: Subnet.simps find_mask.simps align.simps Network_def Broadcast_def
      TwoFiveFive_def mask_step_def)


subsection \<open>Masks with a single high run of ones\<close>

text \<open>
  \<open>NOT (mask k)\<close> is the mask that leaves the \<open>k\<close> low bits free (prefix length
  \<open>32 - k\<close>).  The candidate mask of \<open>Subnet\<close> has this form, the mask update maps
  \<open>k\<close> to \<open>k - 1\<close>, and the alignment loop stops at the first \<open>k\<close> whose low
  \<open>k\<close> bits of the address are zero.
\<close>

lemma cand_mask: "TwoFiveFive - (push_bit w 1 - 1) = (NOT (mask w) :: u32)"
  by (simp add: TwoFiveFive_minus_one not_eq_complement mask_eq_exp_minus_1 push_bit_eq_mult)

lemma cand_mask': "TwoFiveFive - (2 ^ w - 1) = (NOT (mask w) :: u32)"
  by (simp add: TwoFiveFive_minus_one not_eq_complement mask_eq_exp_minus_1)

lemma mask_step_contig:
  assumes "w \<le> 32"
  shows "mask_step (NOT (mask w)) = (NOT (mask (w - 1)) :: u32)"
proof -
  have "NOT (mask_step (NOT (mask w))) = (mask (w - 1) :: u32)"
    unfolding not_mask_step
    using assms by (intro bit_word_eqI) (auto simp add: bit_simps)
  then have "NOT (NOT (mask_step (NOT (mask w)))) = (NOT (mask (w - 1)) :: u32)"
    by (simp only:)
  then show ?thesis by simp
qed

lemma aligned_iff: "Network \<lparr>Addr = a, Mask = NOT (mask k)\<rparr> = a \<longleftrightarrow> take_bit k a = 0"
proof -
  have "NOT (mask k) AND a = a \<longleftrightarrow> a AND mask k = 0"
  proof
    assume h: "NOT (mask k) AND a = a"
    have "a AND mask k = (NOT (mask k) AND a) AND mask k" by (simp only: h)
    also have "\<dots> = 0" by (simp add: and.assoc and.left_commute)
    finally show "a AND mask k = 0" .
  next
    assume h: "a AND mask k = 0"
    have "a = (a AND mask k) OR (a AND NOT (mask k))"
      by (rule bit_word_eqI) (auto simp add: bit_simps)
    then have "a = a AND NOT (mask k)" by (simp add: h)
    then show "NOT (mask k) AND a = a" by (simp add: and.commute)
  qed
  then show ?thesis by (simp add: Network_def take_bit_eq_mask)
qed

lemma find_mask_from:
  "bits \<le> 32 \<Longrightarrow>
     \<exists>w. bits \<le> w \<and> w \<le> 32 \<and> find_mask s bits = NOT (mask w) \<and> drop_bit w s = 0"
proof (induction s bits rule: find_mask.induct)
  case (1 s bits)
  show ?case
  proof (cases "drop_bit bits s = 0")
    case True
    with "1.prems" have "find_mask s bits = NOT (mask bits)"
      by (subst find_mask.simps) (simp add: cand_mask cand_mask')
    with True "1.prems" show ?thesis by blast
  next
    case False
    have "drop_bit 32 s = 0"
      by (rule bit_word_eqI) (simp add: bit_simps)
    with False have "bits \<noteq> 32" by auto
    with "1.prems" have lt: "bits + 1 \<le> 32" by simp
    from "1.IH" [OF "1.prems" False lt]
    obtain w where w: "bits + 1 \<le> w" "w \<le> 32" "find_mask s (bits + 1) = NOT (mask w)"
      "drop_bit w s = 0" by blast
    from False "1.prems" have "find_mask s bits = find_mask s (bits + 1)"
      by (subst find_mask.simps) simp
    with w show ?thesis by (intro exI [of _ w]) simp
  qed
qed

lemma find_mask_contig: "\<exists>w\<le>32. find_mask s 0 = NOT (mask w) \<and> drop_bit w s = 0"
  using find_mask_from [of 0 s] by auto

lemma take_bit_Suc_zero_bit:
  fixes a :: u32
  assumes "take_bit k a = 0" "take_bit (Suc k) a \<noteq> 0"
  shows "bit a k"
proof (rule ccontr)
  assume nb: "\<not> bit a k"
  have "take_bit (Suc k) a = take_bit k a"
  proof (rule bit_word_eqI)
    fix n assume "n < LENGTH(32)"
    show "bit (take_bit (Suc k) a) n = bit (take_bit k a) n"
      using nb by (cases "n = k") (auto simp add: bit_take_bit_iff)
  qed
  with assms show False by simp
qed

lemma align_contig:
  "w \<le> 32 \<Longrightarrow>
     \<exists>k\<le>w. align \<lparr>Addr = a, Mask = NOT (mask w)\<rparr> = \<lparr>Addr = a, Mask = NOT (mask k)\<rparr>
        \<and> take_bit k a = 0 \<and> (k < w \<longrightarrow> bit a k)"
proof (induction w)
  case 0
  have "align \<lparr>Addr = a, Mask = NOT (mask 0)\<rparr> = \<lparr>Addr = a, Mask = NOT (mask 0)\<rparr>"
    by (rule align_stop) (simp add: Network_def)
  then show ?case by (intro exI [of _ 0]) simp
next
  case (Suc w)
  show ?case
  proof (cases "take_bit (Suc w) a = 0")
    case True
    then have "align \<lparr>Addr = a, Mask = NOT (mask (Suc w))\<rparr> = \<lparr>Addr = a, Mask = NOT (mask (Suc w))\<rparr>"
      by (intro align_stop) (simp add: aligned_iff)
    with True show ?thesis by (intro exI [of _ "Suc w"]) simp
  next
    case False
    then have na: "Network \<lparr>Addr = a, Mask = NOT (mask (Suc w))\<rparr> \<noteq> Addr \<lparr>Addr = a, Mask = NOT (mask (Suc w))\<rparr>"
      by (simp add: aligned_iff)
    from Suc.prems have "mask_step (NOT (mask (Suc w))) = (NOT (mask w) :: u32)"
      using mask_step_contig [of "Suc w"] by simp
    with align_step [OF na]
    have st: "align \<lparr>Addr = a, Mask = NOT (mask (Suc w))\<rparr> = align \<lparr>Addr = a, Mask = NOT (mask w)\<rparr>"
      by simp
    from Suc obtain k where k: "k \<le> w"
      "align \<lparr>Addr = a, Mask = NOT (mask w)\<rparr> = \<lparr>Addr = a, Mask = NOT (mask k)\<rparr>"
      "take_bit k a = 0" "k < w \<longrightarrow> bit a k" by auto
    have "bit a k"
    proof (cases "k < w")
      case True
      with k show ?thesis by simp
    next
      case False
      with k have "k = w" by simp
      with k \<open>take_bit (Suc w) a \<noteq> 0\<close> show ?thesis
        by (auto intro: take_bit_Suc_zero_bit)
    qed
    with k st show ?thesis by (intro exI [of _ k]) simp
  qed
qed

lemma block_covers_stop:
  fixes start stop :: u32
  assumes "drop_bit w (start XOR stop) = 0"
  shows "stop \<le> start OR mask w"
proof -
  have eq: "bit start (w + n) = bit stop (w + n)" for n
  proof -
    have "bit (drop_bit w (start XOR stop)) n = False"
      by (simp only: assms) simp
    then show ?thesis by (simp add: bit_drop_bit_eq bit_xor_iff)
  qed
  have "stop AND (start OR mask w) = stop"
  proof (rule bit_word_eqI)
    fix n assume "n < LENGTH(32)"
    show "bit (stop AND (start OR mask w)) n = bit stop n"
    proof (cases "n < w")
      case True
      then show ?thesis by (auto simp add: bit_simps dest: bit_imp_le_length)
    next
      case False
      then have "n = w + (n - w)" by simp
      with eq [of "n - w"] have "bit start n = bit stop n" by simp
      then show ?thesis by (auto simp add: bit_simps)
    qed
  qed
  then have "stop = stop AND (start OR mask w)" by simp
  also have "\<dots> \<le> start OR mask w" by (rule word_and_le1)
  finally show ?thesis .
qed

lemma next_start_aligned:
  fixes a :: u32
  assumes "take_bit k a = 0" "bit a k"
  shows "take_bit (Suc k) ((a OR mask k) + 1) = 0"
proof -
  have "a AND mask k = 0" using assms(1) by (simp add: take_bit_eq_mask)
  then have "a OR mask k = a + mask k" by (simp add: disjunctive_add_eq_or)
  then have e: "(a OR mask k) + 1 = a + 2 ^ k"
    by (simp add: mask_eq_exp_minus_1)
  have t: "take_bit (Suc k) a = 2 ^ k"
  proof (rule bit_word_eqI)
    fix n assume n: "n < LENGTH(32)"
    have "bit (take_bit k a) n = False" by (simp only: assms(1)) simp
    then have z: "n < k \<Longrightarrow> \<not> bit a n" by (simp add: bit_take_bit_iff)
    from assms(2) have "k < 32" by (auto dest: bit_imp_le_length)
    then show "bit (take_bit (Suc k) a) n = bit (2 ^ k :: u32) n"
      using z assms(2) n by (cases "n = k") (auto simp add: bit_take_bit_iff bit_exp_iff less_Suc_eq)
  qed
  define P where "P = drop_bit (Suc k) a"
  have "push_bit (Suc k) P + take_bit (Suc k) a = a"
    unfolding P_def by (rule bits_ident)
  then have "a + 2 ^ k = push_bit (Suc k) P + (2 ^ k + 2 ^ k)"
    by (simp only: t add.assoc [symmetric])
  also have "(2 ^ k + 2 ^ k :: u32) = push_bit (Suc k) 1"
    by (simp add: push_bit_eq_mult)
  also have "push_bit (Suc k) P + push_bit (Suc k) 1 = push_bit (Suc k) (P + 1)"
    by (simp only: push_bit_add)
  finally have "take_bit (Suc k) (a + 2 ^ k) = take_bit (Suc k) (push_bit (Suc k) (P + 1))"
    by (simp only:)
  also have "\<dots> = 0"
    by (simp only: take_bit_push_bit) simp
  finally show ?thesis by (simp only: e)
qed


subsection \<open>Recursion depth\<close>

text \<open>
  \<open>Subnet\<close> with a bound on the nesting of its activations: every call, the outermost
  included, uses up one unit, and \<open>None\<close> says that the bound was reached before the
  recursion ended.
\<close>

fun Subnet_fuel :: "nat \<Rightarrow> u32 \<Rightarrow> u32 \<Rightarrow> (Ipv4 list \<times> error option) option" where
  "Subnet_fuel 0 start stop = None"
| "Subnet_fuel (Suc n) start stop =
     (if start = stop then Some ([\<lparr>Addr = start, Mask = TwoFiveFive\<rparr>], None)
      else if start > stop then Some ([], Some ArgumentOrderBackwards)
      else
        let lo = align \<lparr>Addr = start, Mask = find_mask (start XOR stop) 0\<rparr> in
        if Broadcast lo = stop then Some ([lo], None)
        else if Broadcast lo > stop then Some ([lo], Some InternalError)
        else
          (case Subnet_fuel n (Broadcast lo + 1) stop of
             None \<Rightarrow> None
           | Some (next, Some err) \<Rightarrow> Some ([lo], Some err)
           | Some (next, None) \<Rightarrow> Some ([lo] @ next, None)))"

lemma Broadcast_contig: "Broadcast \<lparr>Addr = a, Mask = NOT (mask k)\<rparr> = a OR mask k"
  by (simp add: Broadcast_def or.commute)

lemma Subnet_block:
  obtains k w where "k \<le> w" "w \<le> 32"
    "align \<lparr>Addr = start, Mask = find_mask (start XOR stop) 0\<rparr> = \<lparr>Addr = start, Mask = NOT (mask k)\<rparr>"
    "take_bit k start = 0" "k < w \<longrightarrow> bit start k" "drop_bit w (start XOR stop) = 0"
proof -
  from find_mask_contig [of "start XOR stop"]
  obtain w where w: "w \<le> 32" "find_mask (start XOR stop) 0 = NOT (mask w)"
    "drop_bit w (start XOR stop) = 0" by blast
  from align_contig [OF w(1), of start]
  obtain k where "k \<le> w"
    "align \<lparr>Addr = start, Mask = NOT (mask w)\<rparr> = \<lparr>Addr = start, Mask = NOT (mask k)\<rparr>"
    "take_bit k start = 0" "k < w \<longrightarrow> bit start k" by blast
  with w that show thesis by simp
qed

lemma Subnet_recursion_progress:
  assumes lo: "lo = align \<lparr>Addr = start, Mask = find_mask (start XOR stop) 0\<rparr>"
    and below: "Broadcast lo < stop"
  obtains k where "k < 31" "lo = \<lparr>Addr = start, Mask = NOT (mask k)\<rparr>"
    "take_bit k start = 0" "bit start k" "take_bit (Suc k) (Broadcast lo + 1) = 0"
proof -
  obtain k w where kw: "k \<le> w" "w \<le> 32"
    "lo = \<lparr>Addr = start, Mask = NOT (mask k)\<rparr>"
    "take_bit k start = 0" "k < w \<longrightarrow> bit start k" "drop_bit w (start XOR stop) = 0"
    unfolding lo by (rule Subnet_block)
  have B: "Broadcast lo = start OR mask k"
    by (simp only: kw(3) Broadcast_contig)
  have "k \<noteq> w"
  proof
    assume "k = w"
    with block_covers_stop [OF kw(6)] B have "stop \<le> Broadcast lo" by simp
    with below show False by simp
  qed
  with kw have bit: "bit start k" by simp
  from next_start_aligned [OF kw(4) bit] B
  have al: "take_bit (Suc k) (Broadcast lo + 1) = 0" by simp
  have nz: "Broadcast lo + 1 \<noteq> 0"
  proof
    assume "Broadcast lo + 1 = 0"
    then have "unat (Broadcast lo + 1) = 0" by simp
    with unat_succ_below [OF below] show False by simp
  qed
  have "Suc k < 32"
  proof (rule ccontr)
    assume "\<not> Suc k < 32"
    then have "LENGTH(32) \<le> Suc k" by simp
    then have "take_bit (Suc k) (Broadcast lo + 1) = Broadcast lo + 1"
      by (rule take_bit_word_eq_self)
    with al nz show False by simp
  qed
  then have "k < 31" by simp
  with kw bit al that show thesis by blast
qed

lemma low_bits_below_set_bit:
  fixes a :: u32
  assumes "take_bit j a = 0" "bit a k"
  shows "j \<le> k"
proof (rule ccontr)
  assume "\<not> j \<le> k"
  with assms(2) have "bit (take_bit j a) k" by (simp add: bit_take_bit_iff)
  with assms(1) show False by simp
qed

lemma Subnet_fuel_enough:
  "take_bit j start = 0 \<Longrightarrow> j \<le> 31 \<Longrightarrow> 32 \<le> n + j \<Longrightarrow>
     Subnet_fuel n start stop = Some (Subnet start stop)"
proof (induction start stop arbitrary: j n rule: Subnet.induct)
  case (1 start stop)
  from "1.prems" obtain n' where n: "n = Suc n'" by (cases n) auto
  define lo where "lo = align \<lparr>Addr = start, Mask = find_mask (start XOR stop) 0\<rparr>"
  show ?case
  proof (cases "start \<noteq> stop \<and> \<not> stop < start \<and> Broadcast lo \<noteq> stop \<and> \<not> stop < Broadcast lo")
    case False
    then show ?thesis
      unfolding n lo_def by (subst Subnet.simps) (auto simp add: Let_def)
  next
    case True
    then have below: "Broadcast lo < stop" by auto
    from Subnet_recursion_progress [OF lo_def below]
    obtain k where k: "k < 31" "take_bit k start = 0" "bit start k"
      "take_bit (Suc k) (Broadcast lo + 1) = 0" by metis
    from low_bits_below_set_bit [OF "1.prems"(1) k(3)] have "j \<le> k" .
    with "1.prems" n have "32 \<le> n' + Suc k" by simp
    moreover from k have "Suc k \<le> 31" by simp
    ultimately have "Subnet_fuel n' (Broadcast lo + 1) stop = Some (Subnet (Broadcast lo + 1) stop)"
      using "1.IH" [of lo "Suc k" n'] True k(4) lo_def by simp
    with True show ?thesis
      unfolding n by (subst Subnet.simps) (simp add: Let_def lo_def [symmetric] split: prod.splits option.splits)
  qed
qed

text \<open>
  Claim C8.  \<open>Subnet\<close> terminates on every pair of inputs (the termination proofs of
  \<open>find_mask\<close>, \<open>align\<close> and \<open>Subnet\<close> above), and its recursion never nests deeper
  than 33 activations: run with 33 units, the bounded function never runs out and returns
  the result of \<open>Subnet\<close>.  Each recursive call starts at an address with more
  trailing zero bits than the one before.
\<close>

theorem Subnet_depth_at_most_33: "Subnet_fuel 33 start stop = Some (Subnet start stop)"
proof -
  have "take_bit 0 start = 0"
    by simp
  moreover have "(0::nat) \<le> 31" and "(32::nat) \<le> 33 + 0"
    by simp_all
  ultimately show ?thesis
    by (rule Subnet_fuel_enough)
qed


section \<open>Contiguous masks\<close>

text \<open>
  \<open>IsContiguous\<close> scans the mask from bit 0 upwards; \<open>f\<close> records that a one has been
  seen, and a zero after that makes the answer false.
\<close>

function IsContiguous_loop :: "u32 \<Rightarrow> bool \<Rightarrow> nat \<Rightarrow> bool" where
  "IsContiguous_loop m f n =
     (if n < 32 then
        (let b = m AND push_bit n 1;
             f' = (if b \<noteq> 0 then True else f)
         in if f' \<and> b = 0 then False else IsContiguous_loop m f' (n + 1))
      else True)"
  by pat_completeness auto
termination
  by (relation "measure (\<lambda>(m, f, n). 32 - n)") auto

declare IsContiguous_loop.simps [simp del]

definition IsContiguous :: "Ipv4 \<Rightarrow> bool" where
  "IsContiguous i = IsContiguous_loop (Mask i) False 0"

lemma IsContiguous_loop_iff:
  "IsContiguous_loop m f n \<longleftrightarrow>
     (\<forall>i. n \<le> i \<and> i < 32 \<longrightarrow> (f \<or> (\<exists>j. n \<le> j \<and> j < i \<and> bit m j)) \<longrightarrow> bit m i)"
proof (induction m f n rule: IsContiguous_loop.induct)
  case (1 m f n)
  have b: "m AND push_bit n 1 \<noteq> 0 \<longleftrightarrow> bit m n"
    by (simp only: bit_iff_and_push_bit_not_eq_0)
  show ?case
  proof (cases "n < 32")
    case False
    then show ?thesis by (subst IsContiguous_loop.simps) auto
  next
    case n: True
    show ?thesis
    proof (cases "bit m n")
      case True
      with b have nz: "m AND push_bit n 1 \<noteq> 0" by simp
      from n nz have "IsContiguous_loop m f n = IsContiguous_loop m True (n + 1)"
        by (subst IsContiguous_loop.simps) (simp add: Let_def)
      also from "1.IH" [OF n refl refl] nz
      have "\<dots> = (\<forall>i. n + 1 \<le> i \<and> i < 32 \<longrightarrow> bit m i)" by auto
      also have "\<dots> = (\<forall>i. n \<le> i \<and> i < 32 \<longrightarrow> (f \<or> (\<exists>j. n \<le> j \<and> j < i \<and> bit m j)) \<longrightarrow> bit m i)"
      proof (intro iffI allI impI)
        fix i assume h: "\<forall>i. n + 1 \<le> i \<and> i < 32 \<longrightarrow> bit m i" and i: "n \<le> i \<and> i < 32"
        show "bit m i"
        proof (cases "i = n")
          case True
          with \<open>bit m n\<close> show ?thesis by simp
        next
          case False
          with i have "n + 1 \<le> i \<and> i < 32" by simp
          with h show ?thesis by blast
        qed
      next
        fix i assume h: "\<forall>i. n \<le> i \<and> i < 32 \<longrightarrow> (f \<or> (\<exists>j. n \<le> j \<and> j < i \<and> bit m j)) \<longrightarrow> bit m i"
          and i: "n + 1 \<le> i \<and> i < 32"
        then have "n \<le> n \<and> n < i \<and> bit m n" using \<open>bit m n\<close> by simp
        then have "\<exists>j. n \<le> j \<and> j < i \<and> bit m j" by blast
        moreover from i have "n \<le> i \<and> i < 32" by simp
        ultimately show "bit m i" using h by blast
      qed
      finally show ?thesis .
    next
      case nb: False
      with b have z: "m AND push_bit n 1 = 0" by simp
      show ?thesis
      proof (cases f)
        case True
        with n z have "IsContiguous_loop m f n = False"
          by (subst IsContiguous_loop.simps) (simp add: Let_def)
        moreover have "\<not> (\<forall>i. n \<le> i \<and> i < 32 \<longrightarrow> (f \<or> (\<exists>j. n \<le> j \<and> j < i \<and> bit m j)) \<longrightarrow> bit m i)"
          using True n nb by (intro notI) (auto dest: spec [of _ n])
        ultimately show ?thesis by simp
      next
        case False
        with n z have "IsContiguous_loop m f n = IsContiguous_loop m False (n + 1)"
          by (subst IsContiguous_loop.simps) (simp add: Let_def)
        also from "1.IH" [OF n refl refl] z False
        have "\<dots> = (\<forall>i. n + 1 \<le> i \<and> i < 32 \<longrightarrow> (\<exists>j. n + 1 \<le> j \<and> j < i \<and> bit m j) \<longrightarrow> bit m i)"
          by auto
        also have "\<dots> = (\<forall>i. n \<le> i \<and> i < 32 \<longrightarrow> (f \<or> (\<exists>j. n \<le> j \<and> j < i \<and> bit m j)) \<longrightarrow> bit m i)"
        proof (intro iffI allI impI)
          fix i
          assume h: "\<forall>i. n + 1 \<le> i \<and> i < 32 \<longrightarrow> (\<exists>j. n + 1 \<le> j \<and> j < i \<and> bit m j) \<longrightarrow> bit m i"
            and i: "n \<le> i \<and> i < 32" and e: "f \<or> (\<exists>j. n \<le> j \<and> j < i \<and> bit m j)"
          from e False obtain j where j: "n \<le> j" "j < i" "bit m j" by blast
          with nb have "j \<noteq> n" by auto
          with j have "n + 1 \<le> j \<and> j < i \<and> bit m j" by simp
          moreover from this i have "n + 1 \<le> i \<and> i < 32" by simp
          ultimately show "bit m i" using h by blast
        next
          fix i
          assume h: "\<forall>i. n \<le> i \<and> i < 32 \<longrightarrow> (f \<or> (\<exists>j. n \<le> j \<and> j < i \<and> bit m j)) \<longrightarrow> bit m i"
            and i: "n + 1 \<le> i \<and> i < 32" and e: "\<exists>j. n + 1 \<le> j \<and> j < i \<and> bit m j"
          from e obtain j where "n + 1 \<le> j" "j < i" "bit m j" by blast
          then have "n \<le> j \<and> j < i \<and> bit m j" by simp
          then have "\<exists>j. n \<le> j \<and> j < i \<and> bit m j" by blast
          moreover from i have "n \<le> i \<and> i < 32" by simp
          ultimately show "bit m i" using h by blast
        qed
        finally show ?thesis .
      qed
    qed
  qed
qed

lemma IsContiguous_iff:
  "IsContiguous i \<longleftrightarrow> (\<forall>n<32. (\<exists>j<n. bit (Mask i) j) \<longrightarrow> bit (Mask i) n)"
  by (simp add: IsContiguous_def IsContiguous_loop_iff)

lemma IsContiguous_high_run: "IsContiguous \<lparr>Addr = a, Mask = NOT (mask k)\<rparr>"
  by (auto simp add: IsContiguous_iff bit_simps)

lemma IsContiguous_is_high_run:
  assumes "IsContiguous i"
  shows "\<exists>k\<le>32. Mask i = NOT (mask k)"
proof (cases "\<exists>j. bit (Mask i) j")
  case False
  then have "Mask i = 0" by (auto intro: bit_word_eqI)
  also have "(0::u32) = NOT (mask 32)"
    by (rule bit_word_eqI) (simp add: bit_simps)
  finally show ?thesis by blast
next
  case True
  define k where "k = (LEAST j. bit (Mask i) j)"
  from True have k: "bit (Mask i) k" unfolding k_def by (auto intro: LeastI)
  have least: "j < k \<Longrightarrow> \<not> bit (Mask i) j" for j
    unfolding k_def by (rule not_less_Least)
  from k have k32: "k < 32" by (auto dest: bit_imp_le_length)
  have "Mask i = NOT (mask k)"
  proof (rule bit_word_eqI)
    fix n assume n: "n < LENGTH(32)"
    show "bit (Mask i) n = bit (NOT (mask k) :: u32) n"
    proof (cases "n < k")
      case True
      with least n show ?thesis by (simp add: bit_simps)
    next
      case False
      have "bit (Mask i) n"
      proof (cases "n = k")
        case True
        with k show ?thesis by simp
      next
        case nk: False
        with False have "k < n" by simp
        with k have "\<exists>j<n. bit (Mask i) j" by blast
        with assms n show ?thesis by (simp add: IsContiguous_iff)
      qed
      with False n show ?thesis by (simp add: bit_simps)
    qed
  qed
  with k32 show ?thesis by (intro exI [of _ k]) simp
qed



section \<open>What a successful \<open>Subnet\<close> returns\<close>

lemma Subnet_first_block:
  assumes "lo = align \<lparr>Addr = start, Mask = find_mask (start XOR stop) 0\<rparr>"
  shows "Addr lo = start \<and> Network lo = Addr lo \<and> IsContiguous lo"
proof -
  obtain k w where "lo = \<lparr>Addr = start, Mask = NOT (mask k)\<rparr>"
    unfolding assms by (rule Subnet_block)
  then have "IsContiguous lo" by (simp only: IsContiguous_high_run)
  then show ?thesis unfolding assms by (simp add: align_Addr align_aligned)
qed

lemma single_address_block:
  "Network \<lparr>Addr = a, Mask = TwoFiveFive\<rparr> = a"
  "Broadcast \<lparr>Addr = a, Mask = TwoFiveFive\<rparr> = a"
  "IsContiguous \<lparr>Addr = a, Mask = TwoFiveFive\<rparr>"
proof -
  have "TwoFiveFive = (NOT (mask 0) :: u32)" by (simp add: TwoFiveFive_minus_one)
  then show "IsContiguous \<lparr>Addr = a, Mask = TwoFiveFive\<rparr>"
    using IsContiguous_high_run [of a 0] by simp
qed (simp_all add: Network_def Broadcast_def TwoFiveFive_minus_one)

lemma Subnet_cases:
  obtains (single) "start = stop" "Subnet start stop = ([\<lparr>Addr = start, Mask = TwoFiveFive\<rparr>], None)"
  | (backwards) "stop < start" "Subnet start stop = ([], Some ArgumentOrderBackwards)"
  | (exact) lo where "start < stop"
      "lo = align \<lparr>Addr = start, Mask = find_mask (start XOR stop) 0\<rparr>"
      "Broadcast lo = stop" "Subnet start stop = ([lo], None)"
  | (overshoot) lo where "start < stop"
      "lo = align \<lparr>Addr = start, Mask = find_mask (start XOR stop) 0\<rparr>"
      "stop < Broadcast lo" "Subnet start stop = ([lo], Some InternalError)"
  | (failed) lo rest err where "start < stop"
      "lo = align \<lparr>Addr = start, Mask = find_mask (start XOR stop) 0\<rparr>"
      "Broadcast lo < stop" "Subnet (Broadcast lo + 1) stop = (rest, Some err)"
      "Subnet start stop = ([lo], Some err)"
  | (more) lo rest where "start < stop"
      "lo = align \<lparr>Addr = start, Mask = find_mask (start XOR stop) 0\<rparr>"
      "Broadcast lo < stop" "Subnet (Broadcast lo + 1) stop = (rest, None)"
      "Subnet start stop = (lo # rest, None)"
proof -
  define lo where "lo = align \<lparr>Addr = start, Mask = find_mask (start XOR stop) 0\<rparr>"
  consider "start = stop" | "stop < start" | "start < stop" "Broadcast lo = stop"
    | "start < stop" "stop < Broadcast lo" | "start < stop" "Broadcast lo < stop"
    by (metis linorder_neqE)
  then show thesis
  proof cases
    case 1
    then have "Subnet start stop = ([\<lparr>Addr = start, Mask = TwoFiveFive\<rparr>], None)"
      by (subst Subnet.simps) simp
    with 1 show ?thesis by (rule single)
  next
    case 2
    then have "Subnet start stop = ([], Some ArgumentOrderBackwards)"
      by (subst Subnet.simps) auto
    with 2 show ?thesis by (rule backwards)
  next
    case 3
    then have "Subnet start stop = ([lo], None)"
      by (subst Subnet.simps) (auto simp add: Let_def lo_def)
    with 3 lo_def show ?thesis by (intro exact [of lo])
  next
    case 4
    then have "Subnet start stop = ([lo], Some InternalError)"
      by (subst Subnet.simps) (auto simp add: Let_def lo_def)
    with 4 lo_def show ?thesis by (intro overshoot [of lo])
  next
    case 5
    obtain rest e where r: "Subnet (Broadcast lo + 1) stop = (rest, e)"
      by (cases "Subnet (Broadcast lo + 1) stop")
    show ?thesis
    proof (cases e)
      case None
      with 5 r have "Subnet start stop = (lo # rest, None)"
        by (subst Subnet.simps) (auto simp add: Let_def lo_def [symmetric])
      with 5 lo_def r None show ?thesis by (intro more [of lo rest]) simp_all
    next
      case (Some err)
      with 5 r have "Subnet start stop = ([lo], Some err)"
        by (subst Subnet.simps) (auto simp add: Let_def lo_def [symmetric])
      with 5 lo_def r Some show ?thesis by (intro failed [of lo rest err]) simp_all
    qed
  qed
qed

lemma Subnet_success_blocks:
  "Subnet start stop = (bs, None) \<Longrightarrow> \<forall>b\<in>set bs. Network b = Addr b \<and> IsContiguous b"
proof (induction start stop arbitrary: bs rule: Subnet.induct)
  case (1 start stop)
  show ?case
  proof (cases rule: Subnet_cases [of start stop])
    case single
    with "1.prems" show ?thesis by (auto simp add: single_address_block)
  next
    case backwards
    with "1.prems" show ?thesis by simp
  next
    case (exact lo)
    with "1.prems" Subnet_first_block [OF exact(2)] show ?thesis by auto
  next
    case (overshoot lo)
    with "1.prems" show ?thesis by simp
  next
    case (failed lo rest err)
    with "1.prems" show ?thesis by simp
  next
    case (more lo rest)
    from more have "start \<noteq> stop" "\<not> stop < start" "Broadcast lo \<noteq> stop" "\<not> stop < Broadcast lo"
      by auto
    from "1.IH" [OF this(1,2) more(2) this(3,4) more(4)]
    have ih: "\<forall>b\<in>set rest. Network b = Addr b \<and> IsContiguous b" .
    from more "1.prems" have bs: "bs = lo # rest" by simp
    from Subnet_first_block [OF more(2)] ih show ?thesis
      unfolding bs by simp
  qed
qed

text \<open>
  Claim C10.  Whenever \<open>Subnet(start, stop)\<close> returns without error, the returned
  sequence is not empty, every block is aligned to its own mask
  (\<open>b.Addr & b.Mask == b.Addr\<close>) and has a contiguous mask, the first block starts at
  \<open>start\<close>, every later block starts one past the broadcast address of the block before
  it, and the last block's broadcast address is \<open>stop\<close>.
\<close>

theorem Subnet_blocks_aligned_and_chained:
  "Subnet start stop = (bs, None) \<Longrightarrow>
     bs \<noteq> [] \<and> (\<forall>b\<in>set bs. Network b = Addr b \<and> IsContiguous b)
     \<and> Addr (hd bs) = start
     \<and> (\<forall>i. Suc i < length bs \<longrightarrow> Addr (bs ! Suc i) = Broadcast (bs ! i) + 1)
     \<and> Broadcast (last bs) = stop"
proof (induction start stop arbitrary: bs rule: Subnet.induct)
  case (1 start stop)
  show ?case
  proof (cases rule: Subnet_cases [of start stop])
    case single
    with "1.prems" show ?thesis by (auto simp add: single_address_block)
  next
    case backwards
    with "1.prems" show ?thesis by simp
  next
    case (exact lo)
    with "1.prems" Subnet_first_block [OF exact(2)] show ?thesis by auto
  next
    case (overshoot lo)
    with "1.prems" show ?thesis by simp
  next
    case (failed lo rest err)
    with "1.prems" show ?thesis by simp
  next
    case (more lo rest)
    from more have "start \<noteq> stop" "\<not> stop < start" "Broadcast lo \<noteq> stop" "\<not> stop < Broadcast lo"
      by auto
    from "1.IH" [OF this(1,2) more(2) this(3,4) more(4)]
    have ih: "rest \<noteq> []" "\<forall>b\<in>set rest. Network b = Addr b \<and> IsContiguous b"
      "Addr (hd rest) = Broadcast lo + 1"
      "\<forall>i. Suc i < length rest \<longrightarrow> Addr (rest ! Suc i) = Broadcast (rest ! i) + 1"
      "Broadcast (last rest) = stop" by simp_all
    from more "1.prems" have bs: "bs = lo # rest" by simp
    have chain: "Addr ((lo # rest) ! Suc i) = Broadcast ((lo # rest) ! i) + 1"
      if "Suc i < length (lo # rest)" for i
    proof (cases i)
      case 0
      with ih(1,3) show ?thesis by (simp add: hd_conv_nth)
    next
      case (Suc i')
      with that ih(4) show ?thesis by simp
    qed
    from Subnet_first_block [OF more(2)] ih chain show ?thesis
      unfolding bs by simp
  qed
qed

theorem Subnet_blocks_aligned_and_chained_witness:
  "Subnet 1 3 = ([\<lparr>Addr = 1, Mask = 0xFFFFFFFF\<rparr>, \<lparr>Addr = 2, Mask = 0xFFFFFFFE\<rparr>], None)
   \<and> Network \<lparr>Addr = 1, Mask = 0xFFFFFFFF\<rparr> = 1
   \<and> IsContiguous \<lparr>Addr = 1, Mask = 0xFFFFFFFF\<rparr>
   \<and> Network \<lparr>Addr = 2, Mask = 0xFFFFFFFE\<rparr> = 2
   \<and> IsContiguous \<lparr>Addr = 2, Mask = 0xFFFFFFFE\<rparr>
   \<and> Addr \<lparr>Addr = 2, Mask = 0xFFFFFFFE\<rparr> = Broadcast \<lparr>Addr = 1, Mask = 0xFFFFFFFF\<rparr> + 1
   \<and> Broadcast \<lparr>Addr = 2, Mask = 0xFFFFFFFE\<rparr> = 3"
proof -
  have e: "Subnet 1 3 = ([\<lparr>Addr = 1, Mask = 0xFFFFFFFF\<rparr>, \<lparr>Addr = 2, Mask = 0xFFFFFFFE\<rparr>], None)"
    by (simp add: Subnet.simps find_mask.simps align.simps Network_def Broadcast_def
        TwoFiveFive_def mask_step_def)
  from Subnet_blocks_aligned_and_chained [OF e] e show ?thesis
    by simp
qed



section \<open>The alignment loop\<close>

text \<open>
  The alignment loop with a bound on the number of mask updates; \<open>None\<close> says that the
  bound was reached with the address still unaligned.
\<close>

fun align_fuel :: "nat \<Rightarrow> Ipv4 \<Rightarrow> Ipv4 option" where
  "align_fuel n lo =
     (if Network lo = Addr lo then Some lo
      else (case n of
              0 \<Rightarrow> None
            | Suc n' \<Rightarrow> align_fuel n' (lo\<lparr>Mask := mask_step (Mask lo)\<rparr>)))"

declare align_fuel.simps [simp del]

lemma align_fuel_enough:
  "drop_bit n (NOT (Mask lo)) = 0 \<Longrightarrow> align_fuel n lo = Some (align lo)"
proof (induction n arbitrary: lo)
  case 0
  then have "Mask lo = - 1"
    by (metis bit.compl_zero bit.double_compl drop_bit_0 id_apply)
  then have "Network lo = Addr lo" by (simp add: Network_def)
  then show ?case by (subst align_fuel.simps) (simp add: align_stop)
next
  case (Suc n)
  show ?case
  proof (cases "Network lo = Addr lo")
    case True
    then show ?thesis by (subst align_fuel.simps) (simp add: align_stop)
  next
    case False
    have "drop_bit n (NOT (Mask (lo\<lparr>Mask := mask_step (Mask lo)\<rparr>))) = drop_bit (Suc n) (NOT (Mask lo))"
      by (simp add: not_mask_step drop_bit_drop_bit)
    with Suc.prems have "align_fuel n (lo\<lparr>Mask := mask_step (Mask lo)\<rparr>)
        = Some (align (lo\<lparr>Mask := mask_step (Mask lo)\<rparr>))"
      by (intro Suc.IH) simp
    with False show ?thesis
      by (subst align_fuel.simps) (simp add: align_step [OF False])
  qed
qed

lemma align_within_32: "align_fuel 32 lo = Some (align lo)"
proof (rule align_fuel_enough)
  show "drop_bit 32 (NOT (Mask lo)) = 0"
    by (rule bit_word_eqI) (simp add: bit_simps)
qed

lemma narrower_block:
  fixes a :: u32
  shows "Network \<lparr>Addr = a, Mask = NOT (mask w)\<rparr> \<le> Network \<lparr>Addr = a, Mask = NOT (mask (w - 1))\<rparr>"
    and "Broadcast \<lparr>Addr = a, Mask = NOT (mask (w - 1))\<rparr> \<le> Broadcast \<lparr>Addr = a, Mask = NOT (mask w)\<rparr>"
proof -
  have "a AND NOT (mask w) = (a AND NOT (mask (w - 1))) AND NOT (mask w)"
    by (rule bit_word_eqI) (auto simp add: bit_simps)
  also have "\<dots> \<le> a AND NOT (mask (w - 1))" by (rule word_and_le2)
  finally show "Network \<lparr>Addr = a, Mask = NOT (mask w)\<rparr> \<le> Network \<lparr>Addr = a, Mask = NOT (mask (w - 1))\<rparr>"
    by (simp add: Network_def and.commute)
  have "a OR mask w = (a OR mask (w - 1)) OR mask w"
    by (rule bit_word_eqI) (auto simp add: bit_simps)
  then have "a OR mask (w - 1) \<le> a OR mask w"
    by (metis le_word_or2)
  then show "Broadcast \<lparr>Addr = a, Mask = NOT (mask (w - 1))\<rparr> \<le> Broadcast \<lparr>Addr = a, Mask = NOT (mask w)\<rparr>"
    by (simp add: Broadcast_contig)
qed

lemma align_keeps_mask_bits:
  "w \<le> 32 \<Longrightarrow> Mask (align \<lparr>Addr = a, Mask = NOT (mask w)\<rparr>) AND NOT (mask w) = NOT (mask w)"
proof -
  assume "w \<le> 32"
  from align_contig [OF this, of a] obtain k where k: "k \<le> w"
    "align \<lparr>Addr = a, Mask = NOT (mask w)\<rparr> = \<lparr>Addr = a, Mask = NOT (mask k)\<rparr>" by blast
  have "(NOT (mask k) :: u32) AND NOT (mask w) = NOT (mask w)"
    using k(1) by (intro bit_word_eqI) (auto simp add: bit_simps)
  with k show ?thesis by simp
qed

text \<open>
  Claim C5 says that the update \<open>mask = 0x80000000 + (mask >> 1)\<close> only ever widens the
  block.  It does the opposite.  In \<open>Subnet(1, 2)\<close> the candidate mask is \<open>/30\<close>, the
  address 1 is not aligned to it, and the update turns it into \<open>/31\<close>: the block
  shrinks from \<open>[0, 3]\<close> to \<open>[0, 1]\<close>.
\<close>

theorem mask_update_narrows_example:
  "find_mask (1 XOR 2) 0 = 0xFFFFFFFC
   \<and> Network \<lparr>Addr = 1, Mask = 0xFFFFFFFC\<rparr> \<noteq> Addr \<lparr>Addr = 1, Mask = 0xFFFFFFFC\<rparr>
   \<and> mask_step 0xFFFFFFFC = 0xFFFFFFFE
   \<and> Broadcast \<lparr>Addr = 1, Mask = 0xFFFFFFFC\<rparr> = 3
   \<and> Broadcast \<lparr>Addr = 1, Mask = mask_step 0xFFFFFFFC\<rparr> = 1"
  by (simp add: find_mask.simps Network_def Broadcast_def TwoFiveFive_def mask_step_def)

text \<open>
  Claim C5, amended.  The candidate mask of step 3 is a single high run of ones,
  \<open>NOT (mask w)\<close> with \<open>w \<le> 32\<close> free low bits.  The update maps such a mask to the one
  with \<open>w - 1\<close> free bits (and \<open>0xFFFFFFFF\<close> to itself), so it only ever narrows the
  block: the network address does not decrease and the broadcast address does not increase.
  For every start and every candidate mask the loop ends within 32 updates, with
  \<open>network(start, mask) == start\<close> and a mask that kept every one bit of the candidate.
\<close>

theorem alignment_loop_narrows_and_terminates:
  "(\<exists>w\<le>32. find_mask s 0 = NOT (mask w))
   \<and> (w \<le> 32 \<longrightarrow>
        mask_step (NOT (mask w)) = NOT (mask (w - 1))
        \<and> Network \<lparr>Addr = a, Mask = NOT (mask w)\<rparr>
            \<le> Network \<lparr>Addr = a, Mask = mask_step (NOT (mask w))\<rparr>
        \<and> Broadcast \<lparr>Addr = a, Mask = mask_step (NOT (mask w))\<rparr>
            \<le> Broadcast \<lparr>Addr = a, Mask = NOT (mask w)\<rparr>)
   \<and> align_fuel 32 \<lparr>Addr = a, Mask = find_mask s 0\<rparr> = Some (align \<lparr>Addr = a, Mask = find_mask s 0\<rparr>)
   \<and> Network (align \<lparr>Addr = a, Mask = find_mask s 0\<rparr>) = Addr (align \<lparr>Addr = a, Mask = find_mask s 0\<rparr>)
   \<and> Mask (align \<lparr>Addr = a, Mask = find_mask s 0\<rparr>) AND find_mask s 0 = find_mask s 0"
proof -
  from find_mask_contig [of s] obtain v where v: "v \<le> 32" "find_mask s 0 = NOT (mask v)"
    by blast
  then have 1: "\<exists>w\<le>32. find_mask s 0 = NOT (mask w)" by blast
  have 2: "w \<le> 32 \<longrightarrow>
        mask_step (NOT (mask w)) = NOT (mask (w - 1))
        \<and> Network \<lparr>Addr = a, Mask = NOT (mask w)\<rparr>
            \<le> Network \<lparr>Addr = a, Mask = mask_step (NOT (mask w))\<rparr>
        \<and> Broadcast \<lparr>Addr = a, Mask = mask_step (NOT (mask w))\<rparr>
            \<le> Broadcast \<lparr>Addr = a, Mask = NOT (mask w)\<rparr>"
    using narrower_block [of a w] by (simp add: mask_step_contig)
  have 3: "Mask (align \<lparr>Addr = a, Mask = find_mask s 0\<rparr>) AND find_mask s 0 = find_mask s 0"
    using align_keeps_mask_bits [OF v(1), of a] by (simp only: v(2))
  from 1 2 3 show ?thesis
    by (simp only: align_within_32 align_aligned simp_thms)
qed

theorem alignment_loop_narrows_and_terminates_witness:
  "(2::nat) \<le> 32
   \<and> mask_step (NOT (mask 2)) = NOT (mask (2 - 1))
   \<and> Network \<lparr>Addr = 1, Mask = NOT (mask 2)\<rparr> \<le> Network \<lparr>Addr = 1, Mask = mask_step (NOT (mask 2))\<rparr>
   \<and> Broadcast \<lparr>Addr = 1, Mask = mask_step (NOT (mask 2))\<rparr> \<le> Broadcast \<lparr>Addr = 1, Mask = NOT (mask 2)\<rparr>
   \<and> align_fuel 32 \<lparr>Addr = 1, Mask = find_mask 3 0\<rparr> = Some (align \<lparr>Addr = 1, Mask = find_mask 3 0\<rparr>)"
proof -
  have h: "(2::nat) \<le> 32" by simp
  from alignment_loop_narrows_and_terminates [of 3 2 1] h show ?thesis
    by blast
qed



section \<open>Overlap of two ranges\<close>

text \<open>
  \<open>Overlap\<close> orders its arguments into \<open>lo\<close> and \<open>hi\<close> with a \<open>switch\<close>; the case
  \<open>n1 == n2\<close> returns at once (\<open>None\<close> below), and a \<open>switch\<close> that matched nothing
  would leave both at their zero value.  An error of \<open>Subnet\<close> is turned into the empty
  sequence.
\<close>

definition Overlap :: "Ipv4 \<Rightarrow> Ipv4 \<Rightarrow> Ipv4 list" where
  "Overlap n1 n2 =
     (let zero = \<lparr>Addr = 0, Mask = 0\<rparr>;
          sel =
            (if Addr n1 < Addr n2 then Some (n1, n2)
             else if Addr n1 > Addr n2 then Some (n2, n1)
             else if Addr n1 = Addr n2 then
               (if Mask n1 > Mask n2 then Some (n1, n2)
                else if Mask n1 < Mask n2 then Some (n2, n1)
                else if n1 = n2 then None
                else Some (zero, zero))
             else Some (zero, zero))
      in case sel of
           None \<Rightarrow> [n1]
         | Some (lo, hi) \<Rightarrow>
             let start = Addr hi;
                 stop = (if Broadcast lo < Broadcast hi then Broadcast lo else Broadcast hi)
             in if stop < start \<or> start > Broadcast lo then []
                else (case Subnet start stop of
                        (res, Some err) \<Rightarrow> []
                      | (res, None) \<Rightarrow> res))"

lemma interval_split:
  fixes start b stop :: u32
  assumes "start \<le> b" "b < stop"
  shows "{start..b} \<union> {b + 1..stop} = {start..stop}"
  using assms
  by (auto simp add: word_le_nat_alt word_less_nat_alt unat_succ_below [OF assms(2)])

lemma Subnet_success_union:
  "Subnet start stop = (bs, None) \<Longrightarrow> (\<Union>b\<in>set bs. {Addr b..Broadcast b}) = {start..stop}"
proof (induction start stop arbitrary: bs rule: Subnet.induct)
  case (1 start stop)
  show ?case
  proof (cases rule: Subnet_cases [of start stop])
    case single
    with "1.prems" show ?thesis by (auto simp add: single_address_block)
  next
    case backwards
    with "1.prems" show ?thesis by simp
  next
    case (exact lo)
    with "1.prems" Subnet_first_block [OF exact(2)] show ?thesis by auto
  next
    case (overshoot lo)
    with "1.prems" show ?thesis by simp
  next
    case (failed lo rest err)
    with "1.prems" show ?thesis by simp
  next
    case (more lo rest)
    from more have "start \<noteq> stop" "\<not> stop < start" "Broadcast lo \<noteq> stop" "\<not> stop < Broadcast lo"
      by auto
    from "1.IH" [OF this(1,2) more(2) this(3,4) more(4)]
    have ih: "(\<Union>b\<in>set rest. {Addr b..Broadcast b}) = {Broadcast lo + 1..stop}" .
    from more "1.prems" have bs: "bs = lo # rest" by simp
    from Subnet_first_block [OF more(2)] have a: "Addr lo = start" by simp
    with Addr_le_Broadcast [of lo] have "start \<le> Broadcast lo" by simp
    from interval_split [OF this more(3)] ih a show ?thesis
      unfolding bs by simp
  qed
qed

lemma Overlap_same: "Overlap n n = [n]"
  by (simp add: Overlap_def)

lemma Overlap_ordered:
  assumes "n1 \<noteq> n2"
  obtains lo hi where "(lo = n1 \<and> hi = n2) \<or> (lo = n2 \<and> hi = n1)" "Addr lo \<le> Addr hi"
    "Overlap n1 n2 =
       (let start = Addr hi;
            stop = (if Broadcast lo < Broadcast hi then Broadcast lo else Broadcast hi)
        in if stop < start \<or> start > Broadcast lo then []
           else (case Subnet start stop of
                   (res, Some err) \<Rightarrow> []
                 | (res, None) \<Rightarrow> res))"
proof -
  from assms have ne: "Addr n1 \<noteq> Addr n2 \<or> Mask n1 \<noteq> Mask n2"
    by (cases n1, cases n2) auto
  consider "Addr n1 < Addr n2" | "Addr n2 < Addr n1"
    | "Addr n1 = Addr n2" "Mask n2 < Mask n1" | "Addr n1 = Addr n2" "Mask n1 < Mask n2"
    using ne by (metis linorder_neqE)
  then show thesis
  proof cases
    case 1
    then show ?thesis by (intro that [of n1 n2]) (simp_all add: Overlap_def Let_def)
  next
    case 2
    then have "\<not> Addr n1 < Addr n2" "Addr n2 \<le> Addr n1" by simp_all
    with 2 show ?thesis by (intro that [of n2 n1]) (simp_all add: Overlap_def Let_def)
  next
    case 3
    then have "\<not> Mask n1 < Mask n2" by simp
    with 3 show ?thesis by (intro that [of n1 n2]) (simp_all add: Overlap_def Let_def)
  next
    case 4
    then have "\<not> Mask n2 < Mask n1" by simp
    with 4 show ?thesis by (intro that [of n2 n1]) (simp_all add: Overlap_def Let_def)
  qed
qed

text \<open>
  Claim C4 reads each range as the interval \<open>[Network(), Broadcast()]\<close>.  \<open>Overlap\<close>
  starts the intersection at \<open>hi.Addr\<close>, not at \<open>hi.Network()\<close>.  For \<open>0.0.0.0/30\<close> and
  \<open>0.0.0.1/30\<close> both intervals are \<open>[0, 3]\<close>, so is their intersection, and the
  returned blocks \<open>0.0.0.1/32\<close> and \<open>0.0.0.2/31\<close> leave the address 0 out.
\<close>

theorem Overlap_misses_network_address:
  "Overlap \<lparr>Addr = 0, Mask = 0xFFFFFFFC\<rparr> \<lparr>Addr = 1, Mask = 0xFFFFFFFC\<rparr>
     = [\<lparr>Addr = 1, Mask = 0xFFFFFFFF\<rparr>, \<lparr>Addr = 2, Mask = 0xFFFFFFFE\<rparr>]
   \<and> Network \<lparr>Addr = 0, Mask = 0xFFFFFFFC\<rparr> = 0
   \<and> Broadcast \<lparr>Addr = 0, Mask = 0xFFFFFFFC\<rparr> = 3
   \<and> Network \<lparr>Addr = 1, Mask = 0xFFFFFFFC\<rparr> = 0
   \<and> Broadcast \<lparr>Addr = 1, Mask = 0xFFFFFFFC\<rparr> = 3
   \<and> Network \<lparr>Addr = 1, Mask = 0xFFFFFFFF\<rparr> = 1
   \<and> Network \<lparr>Addr = 2, Mask = 0xFFFFFFFE\<rparr> = 2"
  by (simp add: Overlap_def Subnet.simps find_mask.simps align.simps Network_def Broadcast_def
      TwoFiveFive_def mask_step_def)

text \<open>
  Claim C4, amended.  \<open>Overlap\<close> reads each range as the interval
  \<open>[Addr, Broadcast()]\<close>.  When the two intervals are disjoint it returns the empty
  sequence.  Whenever it returns a sequence that is not empty, the union of the returned
  blocks' intervals is exactly the intersection of the two intervals; and unless the two
  arguments are equal (when the argument itself is returned), every returned block is
  aligned to its mask and has a contiguous mask.
\<close>

theorem Overlap_covers_intersection_when_nonempty:
  "({Addr n1..Broadcast n1} \<inter> {Addr n2..Broadcast n2} = {} \<longrightarrow> Overlap n1 n2 = [])
   \<and> (Overlap n1 n2 \<noteq> [] \<longrightarrow>
        (\<Union>b\<in>set (Overlap n1 n2). {Addr b..Broadcast b})
          = {Addr n1..Broadcast n1} \<inter> {Addr n2..Broadcast n2})
   \<and> (n1 \<noteq> n2 \<longrightarrow> (\<forall>b\<in>set (Overlap n1 n2). Network b = Addr b \<and> IsContiguous b))"
proof (cases "n1 = n2")
  case True
  with Addr_le_Broadcast [of n1] show ?thesis
    by (auto simp add: Overlap_same)
next
  case False
  then obtain lo hi where o: "(lo = n1 \<and> hi = n2) \<or> (lo = n2 \<and> hi = n1)" "Addr lo \<le> Addr hi"
    "Overlap n1 n2 =
       (let start = Addr hi;
            stop = (if Broadcast lo < Broadcast hi then Broadcast lo else Broadcast hi)
        in if stop < start \<or> start > Broadcast lo then []
           else (case Subnet start stop of
                   (res, Some err) \<Rightarrow> []
                 | (res, None) \<Rightarrow> res))"
    by (rule Overlap_ordered)
  define start where "start = Addr hi"
  define stop where "stop = (if Broadcast lo < Broadcast hi then Broadcast lo else Broadcast hi)"
  from o(1) consider "lo = n1 \<and> hi = n2" | "lo = n2 \<and> hi = n1" by blast
  then have "{Addr n1..Broadcast n1} \<inter> {Addr n2..Broadcast n2}
      = {Addr lo..Broadcast lo} \<inter> {Addr hi..Broadcast hi}"
  proof cases
    case 1
    then show ?thesis by simp
  next
    case 2
    then show ?thesis by (simp only: Int_commute)
  qed
  also from o(2) have "\<dots> = {start..stop}"
    unfolding start_def stop_def by (auto simp add: max_def min_def)
  finally have int: "{Addr n1..Broadcast n1} \<inter> {Addr n2..Broadcast n2} = {start..stop}" .
  have ov: "Overlap n1 n2 =
      (if stop < start \<or> start > Broadcast lo then []
       else (case Subnet start stop of (res, Some err) \<Rightarrow> [] | (res, None) \<Rightarrow> res))"
    unfolding o(3) start_def stop_def by (simp add: Let_def)
  obtain res e where s: "Subnet start stop = (res, e)" by (cases "Subnet start stop")
  show ?thesis
  proof (cases "stop < start \<or> start > Broadcast lo \<or> e \<noteq> None")
    case True
    then have emp: "Overlap n1 n2 = []" unfolding ov using s by auto
    show ?thesis
      unfolding emp by simp
  next
    case f: False
    then have r: "Overlap n1 n2 = res" and sn: "Subnet start stop = (res, None)"
      unfolding ov using s by auto
    from f have "start \<le> stop" by auto
    then have ne: "{start..stop} \<noteq> {}" by simp
    from Subnet_success_blocks [OF sn] Subnet_success_union [OF sn] ne show ?thesis
      unfolding r int by simp
  qed
qed


theorem Overlap_covers_intersection_when_nonempty_witness:
  "Overlap \<lparr>Addr = 0x0A0A1400, Mask = 0xFFFFF800\<rparr> \<lparr>Addr = 0x0A0A1400, Mask = 0xFFFFFF00\<rparr>
     = [\<lparr>Addr = 0x0A0A1400, Mask = 0xFFFFFF00\<rparr>]
   \<and> (\<Union>b\<in>set (Overlap \<lparr>Addr = 0x0A0A1400, Mask = 0xFFFFF800\<rparr>
                           \<lparr>Addr = 0x0A0A1400, Mask = 0xFFFFFF00\<rparr>). {Addr b..Broadcast b})
       = {Addr \<lparr>Addr = 0x0A0A1400, Mask = 0xFFFFF800\<rparr>..Broadcast \<lparr>Addr = 0x0A0A1400, Mask = 0xFFFFF800\<rparr>}
         \<inter> {Addr \<lparr>Addr = 0x0A0A1400, Mask = 0xFFFFFF00\<rparr>..Broadcast \<lparr>Addr = 0x0A0A1400, Mask = 0xFFFFFF00\<rparr>}
   \<and> Network \<lparr>Addr = 0x0A0A1400, Mask = 0xFFFFFF00\<rparr> = Addr \<lparr>Addr = 0x0A0A1400, Mask = 0xFFFFFF00\<rparr>
   \<and> IsContiguous \<lparr>Addr = 0x0A0A1400, Mask = 0xFFFFFF00\<rparr>
   \<and> {Addr \<lparr>Addr = 0x0A000000, Mask = 0xFFFFFF00\<rparr>..Broadcast \<lparr>Addr = 0x0A000000, Mask = 0xFFFFFF00\<rparr>}
         \<inter> {Addr \<lparr>Addr = 0x0A000100, Mask = 0xFFFFFF00\<rparr>..Broadcast \<lparr>Addr = 0x0A000100, Mask = 0xFFFFFF00\<rparr>} = {}
   \<and> Overlap \<lparr>Addr = 0x0A000000, Mask = 0xFFFFFF00\<rparr> \<lparr>Addr = 0x0A000100, Mask = 0xFFFFFF00\<rparr> = []"
proof -
  have e: "Overlap \<lparr>Addr = 0x0A0A1400, Mask = 0xFFFFF800\<rparr> \<lparr>Addr = 0x0A0A1400, Mask = 0xFFFFFF00\<rparr>
     = [\<lparr>Addr = 0x0A0A1400, Mask = 0xFFFFFF00\<rparr>]"
    by (simp add: Overlap_def Subnet.simps find_mask.simps align.simps Network_def Broadcast_def
        TwoFiveFive_def mask_step_def)
  then have ne: "Overlap \<lparr>Addr = 0x0A0A1400, Mask = 0xFFFFF800\<rparr> \<lparr>Addr = 0x0A0A1400, Mask = 0xFFFFFF00\<rparr> \<noteq> []"
    by simp
  have df: "\<lparr>Addr = 0x0A0A1400, Mask = 0xFFFFF800\<rparr> \<noteq> \<lparr>Addr = 0x0A0A1400, Mask = (0xFFFFFF00::u32)\<rparr>"
    by simp
  have dj: "{Addr \<lparr>Addr = 0x0A000000, Mask = 0xFFFFFF00\<rparr>..Broadcast \<lparr>Addr = 0x0A000000, Mask = 0xFFFFFF00\<rparr>}
         \<inter> {Addr \<lparr>Addr = 0x0A000100, Mask = 0xFFFFFF00\<rparr>..Broadcast \<lparr>Addr = 0x0A000100, Mask = 0xFFFFFF00\<rparr>} = {}"
    by (simp add: Broadcast_def)
  from Overlap_covers_intersection_when_nonempty
         [of "\<lparr>Addr = 0x0A0A1400, Mask = 0xFFFFF800\<rparr>" "\<lparr>Addr = 0x0A0A1400, Mask = 0xFFFFFF00\<rparr>"] ne df
  have a: "(\<Union>b\<in>set (Overlap \<lparr>Addr = 0x0A0A1400, Mask = 0xFFFFF800\<rparr>
                           \<lparr>Addr = 0x0A0A1400, Mask = 0xFFFFFF00\<rparr>). {Addr b..Broadcast b})
       = {Addr \<lparr>Addr = 0x0A0A1400, Mask = 0xFFFFF800\<rparr>..Broadcast \<lparr>Addr = 0x0A0A1400, Mask = 0xFFFFF800\<rparr>}
         \<inter> {Addr \<lparr>Addr = 0x0A0A1400, Mask = 0xFFFFFF00\<rparr>..Broadcast \<lparr>Addr = 0x0A0A1400, Mask = 0xFFFFFF00\<rparr>}"
    and b: "\<forall>b\<in>set (Overlap \<lparr>Addr = 0x0A0A1400, Mask = 0xFFFFF800\<rparr>
                           \<lparr>Addr = 0x0A0A1400, Mask = 0xFFFFFF00\<rparr>). Network b = Addr b \<and> IsContiguous b"
    by blast+
  from b have c: "Network \<lparr>Addr = 0x0A0A1400, Mask = 0xFFFFFF00\<rparr> = Addr \<lparr>Addr = 0x0A0A1400, Mask = 0xFFFFFF00\<rparr>
      \<and> IsContiguous \<lparr>Addr = 0x0A0A1400, Mask = 0xFFFFFF00\<rparr>"
    unfolding e by simp
  from Overlap_covers_intersection_when_nonempty
         [of "\<lparr>Addr = 0x0A000000, Mask = 0xFFFFFF00\<rparr>" "\<lparr>Addr = 0x0A000100, Mask = 0xFFFFFF00\<rparr>"] dj
  have d: "Overlap \<lparr>Addr = 0x0A000000, Mask = 0xFFFFFF00\<rparr> \<lparr>Addr = 0x0A000100, Mask = 0xFFFFFF00\<rparr> = []"
    by blast
  from e a c dj d show ?thesis by blast
qed



section \<open>Text conversions\<close>

subsection \<open>The standard library functions the parsers call\<close>

text \<open>
  \<open>strconv.Itoa\<close>, \<open>strconv.Atoi\<close> and \<open>strings.Split\<close> are Go's, not the
  repository's.  They are modelled after their documentation, with a Go string as the
  list of its bytes.  \<open>Itoa\<close> writes the decimal digits, after a \<open>-\<close> for a negative
  number.  \<open>Atoi\<close> accepts an optional sign \<open>+\<close> or \<open>-\<close> followed by one or more
  decimal digits and fails on anything else, and on a value outside the 64-bit \<open>int\<close>.
  \<open>Split\<close>, here for a separator of one byte, cuts at every occurrence of the separator
  and returns the one-element slice of the whole string when there is none.
\<close>

definition digit_char :: "nat \<Rightarrow> char" where
  "digit_char d = char_of (48 + d)"

function digits10 :: "nat \<Rightarrow> string" where
  "digits10 n = (if n < 10 then [digit_char n] else digits10 (n div 10) @ [digit_char (n mod 10)])"
  by pat_completeness auto
termination
  by (relation "measure id") auto

declare digits10.simps [simp del]

definition Itoa :: "int \<Rightarrow> string" where
  "Itoa i = (if i < 0 then CHR ''-'' # digits10 (nat (- i)) else digits10 (nat i))"

definition is_digit :: "char \<Rightarrow> bool" where
  "is_digit c = (48 \<le> (of_char c :: nat) \<and> (of_char c :: nat) \<le> 57)"

definition digit_val :: "char \<Rightarrow> int" where
  "digit_val c = int (of_char c) - 48"

definition Atoi :: "string \<Rightarrow> int option" where
  "Atoi s =
     (case s of
        [] \<Rightarrow> None
      | c # cs \<Rightarrow>
          let ds = (if c = CHR ''-'' \<or> c = CHR ''+'' then cs else s) in
          if ds = [] \<or> \<not> list_all is_digit ds then None
          else
            let n = foldl (\<lambda>acc ch. acc * 10 + digit_val ch) 0 ds;
                v = (if c = CHR ''-'' then - n else n)
            in if v < - (2 ^ 63) \<or> 2 ^ 63 - 1 < v then None else Some v)"

fun Split :: "string \<Rightarrow> char \<Rightarrow> string list" where
  "Split [] sep = [[]]"
| "Split (c # cs) sep =
     (if c = sep then [] # Split cs sep
      else (case Split cs sep of
              [] \<Rightarrow> [[c]]
            | p # ps \<Rightarrow> (c # p) # ps))"

subsection \<open>Parsing\<close>

text \<open>
  The loop of \<open>DottedDecimalToUint32\<close> over the octets, stopping at the first one that
  \<open>Atoi\<close> rejects or that is outside \<open>0..255\<close>.
\<close>

fun parse_octets :: "string list \<Rightarrow> error + u8 list" where
  "parse_octets [] = Inr []"
| "parse_octets (v # vs) =
     (case Atoi v of
        None \<Rightarrow> Inl ContainsNonNumbers
      | Some n \<Rightarrow>
          if n < 0 \<or> n > 255 then Inl ContainsNonNumbers
          else (case parse_octets vs of
                  Inl e \<Rightarrow> Inl e
                | Inr bs \<Rightarrow> Inr (word_of_int n # bs)))"

definition DottedDecimalToUint32 :: "string \<Rightarrow> error + u32" where
  "DottedDecimalToUint32 s =
     (let octets = Split s CHR ''.'' in
      if length octets \<noteq> 4 then Inl MustContainThreeDots
      else (case parse_octets octets of
              Inl e \<Rightarrow> Inl e
            | Inr b \<Rightarrow>
                Inr (push_bit 24 (ucast (b ! 0)) OR push_bit 16 (ucast (b ! 1))
                     OR push_bit 8 (ucast (b ! 2)) OR ucast (b ! 3))))"

text \<open>
  In \<open>uint32((1<<(32-b))-1)\<close> the constant 1 takes the type \<open>uint32\<close> of the
  conversion, so the shift by 32 (prefix length 0) gives 0; \<open>32-b\<close> is computed in
  \<open>byte\<close>.
\<close>

definition stringToMask :: "string \<Rightarrow> error + u32" where
  "stringToMask s =
     (case Atoi s of
        None \<Rightarrow> Inl InvalidCidrPrefix
      | Some n \<Rightarrow>
          if n < 0 \<or> n > 32 then Inl InvalidCidrPrefix
          else
            let b = (word_of_int n :: u8)
            in Inr (TwoFiveFive - (push_bit (unat (32 - b)) 1 - 1)))"

text \<open>
  \<open>CidrToIpv4\<close> returns the value built so far together with the error.  \<open>cidrArr[0]\<close>
  would panic on an empty slice, which \<open>Split\<close> never returns.
\<close>

definition CidrToIpv4 :: "string \<Rightarrow> Ipv4 \<times> error option" where
  "CidrToIpv4 c =
     (case Split c CHR ''/'' of
        [] \<Rightarrow> (\<lparr>Addr = 0, Mask = 0\<rparr>, Some IndexOutOfRange)
      | a # rest \<Rightarrow>
          (case DottedDecimalToUint32 a of
             Inl e \<Rightarrow> (\<lparr>Addr = 0, Mask = 0\<rparr>, Some CidrConversionFailed)
           | Inr h \<Rightarrow>
               if length (a # rest) = 2 then
                 (case stringToMask (hd rest) of
                    Inl e \<Rightarrow> (\<lparr>Addr = h, Mask = 0\<rparr>, Some CidrConversionFailed)
                  | Inr m \<Rightarrow> (\<lparr>Addr = h, Mask = m\<rparr>, None))
               else (\<lparr>Addr = h, Mask = TwoFiveFive\<rparr>, None)))"

subsection \<open>Rendering\<close>

definition addrToString :: "u32 \<Rightarrow> string" where
  "addrToString a =
     Itoa (uint (ucast (drop_bit 24 a) :: u8)) @ ''.'' @ Itoa (uint (ucast (drop_bit 16 a) :: u8))
       @ ''.'' @ Itoa (uint (ucast (drop_bit 8 a) :: u8)) @ ''.'' @ Itoa (uint (ucast a :: u8))"

text \<open>\<open>maskToString\<close> of the \<open>Addr\<close>/\<open>Mask\<close> variant: at most 32 rounds, then \<open>"0"\<close>.\<close>

function maskToString_loop :: "u32 \<Rightarrow> nat \<Rightarrow> string" where
  "maskToString_loop m i =
     (if i < 32 then
        (if m = TwoFiveFive then Itoa (32 - int i)
         else maskToString_loop (mask_step m) (i + 1))
      else ''0'')"
  by pat_completeness auto
termination
  by (relation "measure (\<lambda>(m, i). 32 - i)") auto

declare maskToString_loop.simps [simp del]

definition maskToString :: "u32 \<Rightarrow> string" where
  "maskToString m = maskToString_loop m 0"

definition ToCidr :: "Ipv4 \<Rightarrow> string \<times> error option" where
  "ToCidr i =
     (let h = addrToString (Addr i) in
      if \<not> IsContiguous i then (h, Some DiscontiguousMask)
      else (h @ ''/'' @ maskToString (Mask i), None))"

subsection \<open>Malformed input that is accepted\<close>

lemma Atoi_accepts_signs:
  "Atoi ''+1'' = Some 1 \<and> Atoi ''-0'' = Some 0
   \<and> DottedDecimalToUint32 ''+1.-0.3.4'' = Inr 16777988"
  by (simp add: DottedDecimalToUint32_def Atoi_def is_digit_def digit_val_def Let_def)

text \<open>
  Claim C9.  The parsers are to reject every malformed input; \<open>CidrToIpv4\<close> is to succeed
  only on a dotted-decimal address optionally followed by \<open>/\<close> and a prefix length.  Its
  doc comment assumes \<open>/32\<close> when the string has no \<open>/\<close>, but the code takes that branch
  whenever the split does not give exactly two parts: \<open>"1.2.3.4/24/7"\<close> has three, so
  everything after the first \<open>/\<close> is ignored and the call succeeds with the mask
  \<open>255.255.255.255\<close>.  An empty or out-of-range prefix length after a single \<open>/\<close> is
  rejected.
\<close>

theorem CidrToIpv4_accepts_second_slash:
  "CidrToIpv4 ''1.2.3.4/24/7'' = (\<lparr>Addr = 16909060, Mask = 4294967295\<rparr>, None)
   \<and> CidrToIpv4 ''1.2.3.4/'' = (\<lparr>Addr = 16909060, Mask = 0\<rparr>, Some CidrConversionFailed)
   \<and> CidrToIpv4 ''1.2.3.4/33'' = (\<lparr>Addr = 16909060, Mask = 0\<rparr>, Some CidrConversionFailed)"
  by (simp add: CidrToIpv4_def DottedDecimalToUint32_def Atoi_def is_digit_def digit_val_def
      stringToMask_def TwoFiveFive_def Let_def)


subsection \<open>Rendering and parsing back\<close>

lemma of_char_digit_char: "d < 10 \<Longrightarrow> (of_char (digit_char d) :: nat) = 48 + d"
  by (simp add: digit_char_def)

lemma is_digit_digit_char: "d < 10 \<Longrightarrow> is_digit (digit_char d)"
  by (simp add: is_digit_def of_char_digit_char)

lemma digit_val_digit_char: "d < 10 \<Longrightarrow> digit_val (digit_char d) = int d"
  by (simp add: digit_val_def of_char_digit_char)

lemma digits10_all_digits: "list_all is_digit (digits10 n)"
proof (induction n rule: digits10.induct)
  case (1 n)
  show ?case
  proof (cases "n < 10")
    case True
    then show ?thesis by (subst digits10.simps) (simp add: is_digit_digit_char)
  next
    case False
    with 1 show ?thesis by (subst digits10.simps) (simp add: is_digit_digit_char)
  qed
qed

lemma digits10_nonempty: "digits10 n \<noteq> []"
  by (subst digits10.simps) simp

lemma digits10_value: "foldl (\<lambda>acc ch. acc * 10 + digit_val ch) 0 (digits10 n) = int n"
proof (induction n rule: digits10.induct)
  case (1 n)
  show ?case
  proof (cases "n < 10")
    case True
    then show ?thesis by (subst digits10.simps) (simp add: digit_val_digit_char)
  next
    case False
    with 1 have "foldl (\<lambda>acc ch. acc * 10 + digit_val ch) 0 (digits10 (n div 10)) = int (n div 10)"
      by simp
    with False show ?thesis
      by (subst digits10.simps) (simp add: digit_val_digit_char zdiv_int zmod_int)
  qed
qed

lemma not_digit_seps:
  "\<not> is_digit CHR ''.''" "\<not> is_digit CHR ''/''" "\<not> is_digit CHR ''-''" "\<not> is_digit CHR ''+''"
  by (simp_all add: is_digit_def)

lemma digits10_no_sep:
  "CHR ''.'' \<notin> set (digits10 n)" "CHR ''/'' \<notin> set (digits10 n)"
  using digits10_all_digits [of n] not_digit_seps by (auto simp add: list_all_iff)

lemma digits10_head: "hd (digits10 n) \<noteq> CHR ''-''" "hd (digits10 n) \<noteq> CHR ''+''"
  using digits10_all_digits [of n] digits10_nonempty [of n] not_digit_seps
  by (cases "digits10 n"; auto)+

lemma Atoi_Itoa:
  assumes "0 \<le> i" "i < 2 ^ 63"
  shows "Atoi (Itoa i) = Some i"
proof -
  define n where "n = nat i"
  from assms have i: "i = int n" by (simp add: n_def)
  obtain c cs where d: "digits10 n = c # cs"
    using digits10_nonempty [of n] by (cases "digits10 n") auto
  with digits10_head [of n] have c: "c \<noteq> CHR ''-''" "c \<noteq> CHR ''+''" by simp_all
  from digits10_all_digits [of n] d have a: "list_all is_digit (c # cs)" by simp
  from digits10_value [of n] d
  have v: "foldl (\<lambda>acc ch. acc * 10 + digit_val ch) 0 (c # cs) = int n" by simp
  from assms i have r: "int n \<le> 2 ^ 63 - 1" by simp
  have "Itoa (int n) = c # cs" by (simp add: Itoa_def d)
  then show ?thesis
    using c a v r unfolding Atoi_def i by (simp add: Let_def del: foldl_Cons list.pred_inject)
qed

lemma Split_nosep: "sep \<notin> set a \<Longrightarrow> Split a sep = [a]"
  by (induction a) auto

lemma Split_append: "sep \<notin> set a \<Longrightarrow> Split (a @ sep # b) sep = a # Split b sep"
  by (induction a) auto

lemma Itoa_nonneg_no_sep:
  assumes "0 \<le> i"
  shows "CHR ''.'' \<notin> set (Itoa i)" "CHR ''/'' \<notin> set (Itoa i)"
  using assms by (simp_all add: Itoa_def digits10_no_sep)

lemma uint_u8_range: "0 \<le> uint (b::u8)" "uint (b::u8) < 256" "uint (b::u8) < 2 ^ 63"
proof -
  show "0 \<le> uint b" by simp
  have "uint b < 2 ^ LENGTH(8)" by (rule unsigned_less)
  then show "uint b < 256" "uint b < 2 ^ 63" by simp_all
qed

lemma octet_round_trip:
  fixes b :: u8
  shows "Atoi (Itoa (uint b)) = Some (uint b)" "\<not> (uint b < 0 \<or> uint b > 255)"
    "word_of_int (uint b) = b"
proof -
  show "Atoi (Itoa (uint b)) = Some (uint b)"
    by (rule Atoi_Itoa) (rule uint_u8_range)+
  from uint_u8_range [of b] show "\<not> (uint b < 0 \<or> uint b > 255)" by simp
  show "word_of_int (uint b) = b" by simp
qed

lemma parse_octets_rendered:
  "parse_octets [Itoa (uint (b0::u8)), Itoa (uint (b1::u8)), Itoa (uint (b2::u8)), Itoa (uint (b3::u8))]
     = Inr [b0, b1, b2, b3]"
  using octet_round_trip(2) [of b0] octet_round_trip(2) [of b1] octet_round_trip(2) [of b2]
    octet_round_trip(2) [of b3]
  by (simp add: octet_round_trip(1,3))

lemma bytes_reassemble:
  fixes a :: u32
  shows "push_bit 24 (ucast (ucast (drop_bit 24 a) :: u8)) OR push_bit 16 (ucast (ucast (drop_bit 16 a) :: u8))
      OR push_bit 8 (ucast (ucast (drop_bit 8 a) :: u8)) OR ucast (ucast a :: u8) = a"
proof (rule bit_word_eqI)
  fix n assume n: "n < LENGTH(32)"
  consider "n < 8" | "8 \<le> n" "n < 16" | "16 \<le> n" "n < 24" | "24 \<le> n" "n < 32"
    using n by fastforce
  then show "bit (push_bit 24 (ucast (ucast (drop_bit 24 a) :: u8)) OR push_bit 16 (ucast (ucast (drop_bit 16 a) :: u8))
      OR push_bit 8 (ucast (ucast (drop_bit 8 a) :: u8)) OR (ucast (ucast a :: u8) :: u32)) n = bit a n"
    by cases (auto simp add: bit_simps)
qed

lemma Split_addrToString:
  "Split (addrToString a) CHR ''.'' =
     [Itoa (uint (ucast (drop_bit 24 a) :: u8)), Itoa (uint (ucast (drop_bit 16 a) :: u8)),
      Itoa (uint (ucast (drop_bit 8 a) :: u8)), Itoa (uint (ucast a :: u8))]"
  unfolding addrToString_def
  by (simp add: Split_append Split_nosep Itoa_nonneg_no_sep)

lemma DottedDecimal_addrToString: "DottedDecimalToUint32 (addrToString a) = Inr a"
  unfolding DottedDecimalToUint32_def Split_addrToString
  by (simp add: parse_octets_rendered bytes_reassemble del: parse_octets.simps)

lemma addrToString_no_slash: "CHR ''/'' \<notin> set (addrToString a)"
  unfolding addrToString_def
  by (simp add: Itoa_nonneg_no_sep)

lemma not_mask_Suc_not_all_ones: "k < 32 \<Longrightarrow> (NOT (mask (Suc k)) :: u32) \<noteq> TwoFiveFive"
proof
  assume k: "k < 32" and "(NOT (mask (Suc k)) :: u32) = TwoFiveFive"
  then have "bit (NOT (mask (Suc k)) :: u32) 0 = bit (- 1 :: u32) 0"
    by (simp only: TwoFiveFive_minus_one)
  then show False by (simp add: bit_simps)
qed

lemma Itoa_0: "Itoa 0 = ''0''"
  by code_simp

lemma maskToString_loop_high_run:
  "i + k \<le> 32 \<Longrightarrow> maskToString_loop (NOT (mask k)) i = Itoa (32 - int i - int k)"
proof (induction k arbitrary: i)
  case 0
  have e: "(NOT (mask 0) :: u32) = TwoFiveFive" by (simp add: TwoFiveFive_minus_one)
  show ?case
  proof (cases "i < 32")
    case True
    with e show ?thesis by (subst maskToString_loop.simps) simp
  next
    case False
    with 0 have "i = 32" by simp
    then show ?thesis by (subst maskToString_loop.simps) (simp add: Itoa_0)
  qed
next
  case (Suc k)
  then have i: "i < 32" and k: "k < 32" and le: "(i + 1) + k \<le> 32" by simp_all
  from k have "mask_step (NOT (mask (Suc k))) = (NOT (mask k) :: u32)"
    using mask_step_contig [of "Suc k"] by simp
  with i not_mask_Suc_not_all_ones [OF k]
  have "maskToString_loop (NOT (mask (Suc k))) i = maskToString_loop (NOT (mask k)) (i + 1)"
    by (subst maskToString_loop.simps) simp
  also from Suc.IH [OF le] have "\<dots> = Itoa (32 - int (i + 1) - int k)" .
  also have "32 - int (i + 1) - int k = 32 - int i - int (Suc k)" by simp
  finally show ?case .
qed

lemma maskToString_high_run: "k \<le> 32 \<Longrightarrow> maskToString (NOT (mask k)) = Itoa (int (32 - k))"
  using maskToString_loop_high_run [of 0 k] by (simp add: maskToString_def of_nat_diff)

lemma stringToMask_rendered:
  assumes "k \<le> 32"
  shows "stringToMask (Itoa (int (32 - k))) = Inr (NOT (mask k))"
proof -
  have a: "Atoi (Itoa (int (32 - k))) = Some (int (32 - k))"
    by (rule Atoi_Itoa) simp_all
  have u: "unat (word_of_nat (32 - k) :: u8) = 32 - k"
    by (simp add: unat_of_nat)
  then have "(word_of_nat (32 - k) :: u8) \<le> 32"
    by (simp add: word_le_nat_alt)
  then have "unat (32 - (word_of_nat (32 - k) :: u8)) = 32 - (32 - k)"
    by (simp add: unat_sub u)
  with assms have s: "unat (32 - (word_of_nat (32 - k) :: u8)) = k" by simp
  show ?thesis
    unfolding stringToMask_def a using s by (simp add: Let_def cand_mask cand_mask')
qed

lemma ToCidr_contiguous:
  assumes "k \<le> 32"
  shows "ToCidr \<lparr>Addr = a, Mask = NOT (mask k)\<rparr>
      = (addrToString a @ ''/'' @ Itoa (int (32 - k)), None)"
  unfolding ToCidr_def
  by (simp add: IsContiguous_high_run maskToString_high_run [OF assms])

lemma CidrToIpv4_rendered:
  assumes "k \<le> 32"
  shows "CidrToIpv4 (addrToString a @ ''/'' @ Itoa (int (32 - k)))
      = (\<lparr>Addr = a, Mask = NOT (mask k)\<rparr>, None)"
proof -
  have "Split (addrToString a @ ''/'' @ Itoa (int (32 - k))) CHR ''/''
      = [addrToString a, Itoa (int (32 - k))]"
    by (simp add: Split_append Split_nosep addrToString_no_slash Itoa_nonneg_no_sep)
  then show ?thesis
    unfolding CidrToIpv4_def
    by (simp add: DottedDecimal_addrToString stringToMask_rendered [OF assms])
qed

text \<open>
  Claim C6.  For every range whose mask is contiguous, \<open>ToCidr\<close> succeeds and
  \<open>CidrToIpv4\<close> of the string it returns gives the range back, address and mask, with no
  error.  In particular \<open>"10.244.170.8/28"\<close> parses to
  \<open>{address: 183806472, mask: 4294967280}\<close>, and that value renders as
  \<open>"10.244.170.8/28"\<close>.
\<close>

theorem ToCidr_CidrToIpv4_round_trip:
  "(IsContiguous i \<longrightarrow> snd (ToCidr i) = None \<and> CidrToIpv4 (fst (ToCidr i)) = (i, None))
   \<and> CidrToIpv4 ''10.244.170.8/28'' = (\<lparr>Addr = 183806472, Mask = 4294967280\<rparr>, None)
   \<and> ToCidr \<lparr>Addr = 183806472, Mask = 4294967280\<rparr> = (''10.244.170.8/28'', None)"
proof (intro conjI impI)
  assume c: "IsContiguous i"
  from IsContiguous_is_high_run [OF c] obtain k where k: "k \<le> 32" "Mask i = NOT (mask k)"
    by blast
  then have i: "i = \<lparr>Addr = Addr i, Mask = NOT (mask k)\<rparr>" by simp
  have r: "ToCidr i = (addrToString (Addr i) @ ''/'' @ Itoa (int (32 - k)), None)"
    by (subst i) (rule ToCidr_contiguous [OF k(1)])
  then show "snd (ToCidr i) = None" by simp
  have "CidrToIpv4 (addrToString (Addr i) @ ''/'' @ Itoa (int (32 - k))) = (i, None)"
    using CidrToIpv4_rendered [OF k(1), of "Addr i"] i by simp
  with r show "CidrToIpv4 (fst (ToCidr i)) = (i, None)" by simp
next
  show "CidrToIpv4 ''10.244.170.8/28'' = (\<lparr>Addr = 183806472, Mask = 4294967280\<rparr>, None)"
    by (simp add: CidrToIpv4_def DottedDecimalToUint32_def Atoi_def is_digit_def digit_val_def
        stringToMask_def TwoFiveFive_def Let_def)
next
  show "ToCidr \<lparr>Addr = 183806472, Mask = 4294967280\<rparr> = (''10.244.170.8/28'', None)"
    by code_simp
qed

theorem ToCidr_CidrToIpv4_round_trip_witness:
  "IsContiguous \<lparr>Addr = 183806472, Mask = 4294967280\<rparr>
   \<and> snd (ToCidr \<lparr>Addr = 183806472, Mask = 4294967280\<rparr>) = None
   \<and> CidrToIpv4 (fst (ToCidr \<lparr>Addr = 183806472, Mask = 4294967280\<rparr>))
       = (\<lparr>Addr = 183806472, Mask = 4294967280\<rparr>, None)"
proof -
  have c: "IsContiguous \<lparr>Addr = 183806472, Mask = 4294967280\<rparr>"
    by code_simp
  from ToCidr_CidrToIpv4_round_trip [of "\<lparr>Addr = 183806472, Mask = 4294967280\<rparr>"] c
  show ?thesis by blast
qed

end
